theory Spec2Isabelle
  imports Main "HOL-Library.AList" "HOL-Library.Multiset"
begin

section \<open>JavaScript values used by \<open>css.js\<close>\<close>

subsection \<open>Plain objects as ordered property tables\<close>

text \<open>
  A plain JavaScript object whose keys are strings is an association list holding its own
  properties in insertion order. For an own key, \<open>obj[k]\<close> is \<^const>\<open>map_of\<close>; for the
  creation or update of an own property, \<open>obj[k] = v\<close> is \<^const>\<open>AList.update\<close> (an
  existing key keeps its place, a new key goes last); and \<open>delete obj[k]\<close> is
  \<^const>\<open>AList.delete\<close>.

  \<open>Object.keys\<close> lists the keys that are array indices first, in ascending numeric order,
  and then every other key in insertion order.
\<close>

type_synonym 'v obj = "(string \<times> 'v) list"

text \<open>
  The class map and the new-rules table are made by the object literal \<open>{}\<close>, so both
  inherit the members of \<open>Object.prototype\<close>. A read \<open>obj[k]\<close> of a name that is not an
  own key finds the inherited member when there is one: a function, or for \<open>__proto__\<close>
  the prototype object itself, in either case a truthy value that is not an array.
\<close>

definition Object_prototype_names :: "string list" where
  "Object_prototype_names =
     [''constructor'', ''__defineGetter__'', ''__defineSetter__'', ''hasOwnProperty'',
      ''__lookupGetter__'', ''__lookupSetter__'', ''isPrototypeOf'', ''propertyIsEnumerable'',
      ''toString'', ''valueOf'', ''__proto__'', ''toLocaleString'']"

datatype 'v member = Own 'v | Inherited | Absent

definition obj_get :: "'v obj \<Rightarrow> string \<Rightarrow> 'v member" where
  "obj_get t k =
     (case map_of t k of
        Some v \<Rightarrow> Own v
      | None \<Rightarrow> if k \<in> set Object_prototype_names then Inherited else Absent)"

text \<open>
  An assignment \<open>obj[k] = v\<close> of an object \<open>v\<close> creates or updates an own property, except
  under the name \<open>__proto__\<close>: there the inherited setter makes \<open>v\<close> the prototype of
  \<open>obj\<close> and no own property appears. (The members that the table then inherits from \<open>v\<close>
  are never read: the table is only read at its own keys.)
\<close>

definition obj_set :: "string \<Rightarrow> 'v \<Rightarrow> 'v obj \<Rightarrow> 'v obj" where
  "obj_set k v t = (if k = ''__proto__'' then t else AList.update k v t)"

definition is_digit :: "char \<Rightarrow> bool" where
  "is_digit c = (c \<in> set ''0123456789'')"

definition digits_value :: "string \<Rightarrow> nat" where
  "digits_value s = foldl (\<lambda>n c. 10 * n + (of_char c - 48)) 0 s"

definition is_array_index :: "string \<Rightarrow> bool" where
  "is_array_index s =
     (s \<noteq> [] \<and> list_all is_digit s \<and> (s = ''0'' \<or> hd s \<noteq> CHR ''0'')
      \<and> digits_value s < 2 ^ 32 - 1)"

definition Object_keys :: "'v obj \<Rightarrow> string list" where
  "Object_keys t =
     sort_key digits_value (filter is_array_index (map fst t))
     @ filter (\<lambda>k. \<not> is_array_index k) (map fst t)"

subsection \<open>Arrays and sets of strings\<close>

text \<open>
  \<open>new Set(array)\<close> adds the elements of the array from left to right; an element that is
  already a member is skipped, and \<open>Array.from\<close> gives the members back in the order in
  which they were added.
\<close>

definition Set_add :: "'a list \<Rightarrow> 'a \<Rightarrow> 'a list" where
  "Set_add s x = (if x \<in> set s then s else s @ [x])"

definition new_Set :: "'a list \<Rightarrow> 'a list" where
  "new_Set xs = foldl Set_add [] xs"

subsection \<open>Strings\<close>

text \<open>
  Strings are lists of characters. \<open>s.split(':')\<close> cuts at every colon and always has a
  first piece; \<open>pieces.join(':')\<close> puts a colon between neighbours. These operations
  and string equality act on a text in the same way whether it is read as a sequence of
  UTF-16 code units or as a sequence of bytes of UTF-8, because the colon and the dot are
  ASCII characters.

  \<open>String.prototype.toUpperCase\<close> is different: it follows the case mappings of Unicode
  (\<open>'hover'\<close> becomes \<open>'HOVER'\<close>, the sharp s becomes \<open>'SS'\<close>). It is a function of
  the JavaScript runtime and a parameter of the model, like the libraries; nothing is
  assumed of it.
\<close>

type_synonym toUpperCase = "string \<Rightarrow> string"

fun split :: "char \<Rightarrow> string \<Rightarrow> string list" where
  "split c [] = [[]]"
| "split c (x # xs) =
     (if x = c then [] # split c xs
      else (case split c xs of [] \<Rightarrow> [[x]] | p # ps \<Rightarrow> (x # p) # ps))"

fun join :: "string \<Rightarrow> string list \<Rightarrow> string" where
  "join sep [] = []"
| "join sep [p] = p"
| "join sep (p # q # ps) = p @ sep @ join sep (q # ps)"

definition split0 :: "string \<Rightarrow> string" where
  \<comment> \<open>\<open>s.split(':')[0]\<close>\<close>
  "split0 s = (case split CHR '':'' s of [] \<Rightarrow> [] | p # _ \<Rightarrow> p)"

definition startsWith :: "string \<Rightarrow> char \<Rightarrow> bool" where
  "startsWith s c = (case s of [] \<Rightarrow> False | x # _ \<Rightarrow> x = c)"

text \<open>
  A property key is a string: \<open>obj[undefined]\<close> reads and writes the key
  \<open>'undefined'\<close>.
\<close>

definition property_key :: "string option \<Rightarrow> string" where
  "property_key s = (case s of None \<Rightarrow> ''undefined'' | Some k \<Rightarrow> k)"

subsection \<open>Exceptions and \<open>forEach\<close>\<close>

datatype error = TypeError | LibraryError string

text \<open>
  \<open>array.forEach(f)\<close> with the state that \<open>f\<close> mutates passed along; an exception
  thrown by \<open>f\<close> leaves the loop.
\<close>

fun forEach :: "('a \<Rightarrow> 's \<Rightarrow> error + 's) \<Rightarrow> 'a list \<Rightarrow> 's \<Rightarrow> error + 's" where
  "forEach f [] s = Inr s"
| "forEach f (x # xs) s = (case f x s of Inl e \<Rightarrow> Inl e | Inr s' \<Rightarrow> forEach f xs s')"

section \<open>The parsed stylesheet\<close>

text \<open>
  The records keep the fields that \<open>css.js\<close> and the parser wrapper read or write. A
  declaration is \<open>{property, value, position}\<close>; a selector component, as the selector
  parser returns it, is \<open>{type, name, ...}\<close>, and the wrapper adds \<open>original\<close> to the first
  component of every selector. A field that may be missing is an option.
\<close>

type_synonym position = "(nat \<times> nat) \<times> (nat \<times> nat)"

record decl =
  property :: string
  decl_value :: string
  decl_position :: "position option"

record component =
  comp_type :: string
  comp_name :: "string option"
  comp_original :: "string option"

text \<open>A rule as \<open>css.parse\<close> returns it: the selectors are still text.\<close>

record raw_rule =
  raw_selectors :: "string list option"
  raw_declarations :: "decl list"
  raw_position :: "position option"

text \<open>A rule after the parser wrapper: every selector is a list of components.\<close>

record rule =
  rule_selectors :: "component list list"
  rule_declarations :: "decl list"
  rule_position :: "position option"

text \<open>
  The parse result \<open>{stylesheet: {rules: [...]}}\<close>; the wrapper and the engine both read
  \<open>parsed.stylesheet.rules\<close>, so the two ways in which that path can be missing are
  kept apart.
\<close>

datatype 'r ast = NoStylesheet | NoRules | Rules "'r list"

text \<open>A rule of the new-rules table: \<open>{type: 'rule', selectors: [[name]], declarations}\<close>.\<close>

record out_rule =
  out_selectors :: "string option list list"
  out_declarations :: "decl list"

record options =
  verbose :: bool

record result =
  res_classMap :: "string list obj"
  res_output :: string

subsection \<open>The reporting hook\<close>

text \<open>
  Modelled from the spec: \<open>helpers.throwError\<close> (helpers.js is not among the sources).
  The specification gives it as \<open>report(configuration, message, detail)\<close>, used in place
  of raising; a call is recorded with the arguments it was given and returns normally.
\<close>

datatype argument = Opts options | Str string | Exn error

type_synonym report = "argument list"

definition throwError :: "argument list \<Rightarrow> report list \<Rightarrow> report list" where
  "throwError args log = log @ [args]"

subsection \<open>Collaborators\<close>

text \<open>
  The libraries and sibling modules that \<open>css.js\<close> and the parser wrapper call are
  parameters: \<open>css.parse\<close> (given the \<open>silent\<close> flag and the text), the selector parser,
  the class-name encoder, the short-name generator and the serializer. A library call
  either throws or returns; \<open>css.parse\<close> may return a falsy value (\<open>None\<close>).
\<close>

type_synonym css_parse = "bool \<Rightarrow> string \<Rightarrow> error + raw_rule ast option"
type_synonym selectorParse = "string \<Rightarrow> error + component list list"
type_synonym cssParser = "options \<Rightarrow> string \<Rightarrow> (error + rule ast option) \<times> report list"
type_synonym encodeClassName = "options \<Rightarrow> decl \<Rightarrow> string"
type_synonym cssUglifier = "nat \<Rightarrow> string \<times> nat"
type_synonym cssStringify = "out_rule list \<Rightarrow> string"

section \<open>Position stripping\<close>

text \<open>
  \<open>recursivelyRemovePosition\<close> (lines 14 to 28) walks any value and deletes every
  \<open>position\<close> property. On the typed tree it is one function per node type: a declaration
  loses its position; a rule loses its own and those of its declarations; selector texts
  and selector components carry none. The objects of the tree have the fixed keys of their
  node type, so that \<open>item.hasOwnProperty\<close> is the inherited function on each of them; the
  new-rules table, whose keys come from the stylesheet, is treated further down.
\<close>

definition recursivelyRemovePosition_declaration :: "decl \<Rightarrow> decl" where
  "recursivelyRemovePosition_declaration d = d\<lparr>decl_position := None\<rparr>"

definition recursivelyRemovePosition_raw_rule :: "raw_rule \<Rightarrow> raw_rule" where
  "recursivelyRemovePosition_raw_rule r =
     r\<lparr>raw_position := None,
       raw_declarations := map recursivelyRemovePosition_declaration (raw_declarations r)\<rparr>"

definition recursivelyRemovePosition_rule :: "rule \<Rightarrow> rule" where
  "recursivelyRemovePosition_rule r =
     r\<lparr>rule_position := None,
       rule_declarations := map recursivelyRemovePosition_declaration (rule_declarations r)\<rparr>"

definition recursivelyRemovePosition_out_rule :: "out_rule \<Rightarrow> out_rule" where
  "recursivelyRemovePosition_out_rule r =
     r\<lparr>out_declarations := map recursivelyRemovePosition_declaration (out_declarations r)\<rparr>"

section \<open>The parser wrapper\<close>

text \<open>
  The loop \<open>parsedSelectors[i][0]['original'] = rule.selectors[i]\<close>: the first component
  of the \<open>i\<close>-th parsed selector receives the \<open>i\<close>-th selector text, \<open>undefined\<close> when
  there are fewer texts; a parsed selector with no component makes the assignment throw.
\<close>

fun set_originals :: "component list list \<Rightarrow> string list \<Rightarrow> error + component list list" where
  "set_originals [] texts = Inr []"
| "set_originals ([] # parsedSelectors) texts = Inl TypeError"
| "set_originals ((c # cs) # parsedSelectors) texts =
     (case set_originals parsedSelectors (tl texts) of
        Inl e \<Rightarrow> Inl e
      | Inr rest \<Rightarrow>
          Inr ((c\<lparr>comp_original := (case texts of [] \<Rightarrow> None | t # _ \<Rightarrow> Some t)\<rparr> # cs) # rest))"

text \<open>
  The body of \<open>parsed.stylesheet.rules.forEach\<close> in the wrapper: the selector texts are
  joined with commas, parsed, given their \<open>original\<close>, and stored back on the rule.
\<close>

definition parse_rule_selectors :: "selectorParse \<Rightarrow> raw_rule \<Rightarrow> error + rule" where
  "parse_rule_selectors selectorParse r =
     (case raw_selectors r of
        None \<Rightarrow> Inl TypeError
      | Some texts \<Rightarrow>
          (case selectorParse (join '','' texts) of
             Inl e \<Rightarrow> Inl e
           | Inr parsedSelectors \<Rightarrow>
               (case set_originals parsedSelectors texts of
                  Inl e \<Rightarrow> Inl e
                | Inr sels \<Rightarrow>
                    Inr \<lparr>rule_selectors = sels, rule_declarations = raw_declarations r,
                         rule_position = raw_position r\<rparr>)))"

fun parse_rules :: "selectorParse \<Rightarrow> raw_rule list \<Rightarrow> error + rule list" where
  "parse_rules selectorParse [] = Inr []"
| "parse_rules selectorParse (r # rs) =
     (case parse_rule_selectors selectorParse r of
        Inl e \<Rightarrow> Inl e
      | Inr r' \<Rightarrow>
          (case parse_rules selectorParse rs of Inl e \<Rightarrow> Inl e | Inr rs' \<Rightarrow> Inr (r' # rs')))"

text \<open>
  \<open>cssParser\<close>, in its two versions. The first (part\_000) strips the positions of the
  rules before it parses the selectors; the second (part\_001) leaves them in place. Both
  call the hook with the single argument \<open>'Invalid CSS input.'\<close> on empty input and then
  return \<open>undefined\<close>.
\<close>

definition cssParser_with ::
    "(raw_rule \<Rightarrow> raw_rule) \<Rightarrow> css_parse \<Rightarrow> selectorParse \<Rightarrow> cssParser" where
  "cssParser_with prepare parse selectorParse opts input =
     (if input = [] then (Inr None, throwError [Str ''Invalid CSS input.''] [])
      else
        (case parse (\<not> verbose opts) input of
           Inl e \<Rightarrow> (Inl e, [])
         | Inr None \<Rightarrow> (Inr None, [])
         | Inr (Some NoStylesheet) \<Rightarrow> (Inr (Some NoStylesheet), [])
         | Inr (Some NoRules) \<Rightarrow> (Inr (Some NoRules), [])
         | Inr (Some (Rules rs)) \<Rightarrow>
             (case parse_rules selectorParse (map prepare rs) of
                Inl e \<Rightarrow> (Inl e, [])
              | Inr rs' \<Rightarrow> (Inr (Some (Rules rs')), []))))"

definition cssParser_stripping :: "css_parse \<Rightarrow> selectorParse \<Rightarrow> cssParser" where
  "cssParser_stripping = cssParser_with recursivelyRemovePosition_raw_rule"

definition cssParser_keeping :: "css_parse \<Rightarrow> selectorParse \<Rightarrow> cssParser" where
  "cssParser_keeping = cssParser_with (\<lambda>r. r)"

section \<open>The class map\<close>


type_synonym class_map = "string list obj"

text \<open>
  \<open>removeIdenticalProperties\<close> (css.js, lines 39 to 45): for every own key of the class
  map, the stored array is reversed, passed through a \<open>Set\<close>, and reversed again. A key
  taken from \<open>Object.keys\<close> is always bound, so the \<open>None\<close> branch is never taken.
\<close>

definition removeIdenticalProperties_at :: "string \<Rightarrow> class_map \<Rightarrow> class_map" where
  "removeIdenticalProperties_at selector classMap =
     (case map_of classMap selector of
        None \<Rightarrow> classMap
      | Some xs \<Rightarrow> AList.update selector (rev (new_Set (rev xs))) classMap)"

definition removeIdenticalProperties :: "class_map \<Rightarrow> class_map" where
  "removeIdenticalProperties classMap =
     fold removeIdenticalProperties_at (Object_keys classMap) classMap"

text \<open>
  \<open>updateClassMap\<close> (lines 55 to 75): for every selector of the rule, the text of its first
  component up to the first colon is the key, and the encoded name up to its first colon is
  pushed onto the array stored there (a fresh array when nothing is found under the key). A
  selector with no component, or a first component with no \<open>original\<close>, throws. When the
  key is not an own key but the name of a member of \<open>Object.prototype\<close>, line 71 finds
  that member instead of \<open>undefined\<close>, keeps it, and line 72 throws, since it has no
  \<open>push\<close>.
\<close>

fun updateClassMap :: "class_map \<Rightarrow> component list list \<Rightarrow> string \<Rightarrow> error + class_map" where
  "updateClassMap classMap [] encodedClassName = Inr classMap"
| "updateClassMap classMap ([] # selectors) encodedClassName = Inl TypeError"
| "updateClassMap classMap ((c # cs) # selectors) encodedClassName =
     (case comp_original c of
        None \<Rightarrow> Inl TypeError
      | Some text \<Rightarrow>
          (let originalSelectorName = split0 text
           in case obj_get classMap originalSelectorName of
                Inherited \<Rightarrow> Inl TypeError
              | Absent \<Rightarrow>
                  updateClassMap
                    (AList.update originalSelectorName [split0 encodedClassName] classMap)
                    selectors encodedClassName
              | Own xs \<Rightarrow>
                  updateClassMap
                    (AList.update originalSelectorName (xs @ [split0 encodedClassName]) classMap)
                    selectors encodedClassName))"

section \<open>The new-rules table\<close>

type_synonym new_rules = "out_rule obj"

text \<open>
  \<open>handleNonClasses\<close> (lines 84 to 91): the rule is stored under the text of the first
  component of its first selector, with that text as its only selector and with the
  declarations of the rule. Under the text \<open>__proto__\<close> nothing is stored.
\<close>

definition handleNonClasses :: "rule \<Rightarrow> new_rules \<Rightarrow> error + new_rules" where
  "handleNonClasses r newRules =
     (case rule_selectors r of
        (c # cs) # selectors \<Rightarrow>
          (let originalSelectorName = comp_original c
           in Inr (obj_set (property_key originalSelectorName)
                     \<lparr>out_selectors = [[originalSelectorName]],
                      out_declarations = rule_declarations r\<rparr>
                     newRules))
      | _ \<Rightarrow> Inl TypeError)"

text \<open>
  The name under which a declaration of a rule is stored (lines 207 to 214): the encoded
  name, followed by \<open>___-\<close>, the upper-cased pseudo name, a colon and the pseudo name when
  the second component of the first selector is a pseudo class.
\<close>

definition pseudo_component :: "rule \<Rightarrow> component option" where
  "pseudo_component r =
     (case rule_selectors r of
        (c # c' # cs) # selectors \<Rightarrow> if comp_type c' = ''pseudo'' then Some c' else None
      | _ \<Rightarrow> None)"

definition encoded_name ::
    "encodeClassName \<Rightarrow> toUpperCase \<Rightarrow> options \<Rightarrow> rule \<Rightarrow> decl \<Rightarrow> error + string" where
  "encoded_name encodeClassName toUpperCase opts r d =
     (let encodedClassName = encodeClassName opts d
      in case pseudo_component r of
           None \<Rightarrow> Inr encodedClassName
         | Some c' \<Rightarrow>
             (case comp_name c' of
                None \<Rightarrow> Inl TypeError
              | Some pseudoName \<Rightarrow>
                  Inr (encodedClassName @ ''___-'' @ toUpperCase pseudoName @ '':'' @ pseudoName)))"

text \<open>The body of \<open>rule.declarations.forEach\<close> (lines 203 to 223).\<close>

definition atomize_declaration ::
    "encodeClassName \<Rightarrow> toUpperCase \<Rightarrow> options \<Rightarrow> rule \<Rightarrow> decl \<Rightarrow> class_map \<times> new_rules
      \<Rightarrow> error + class_map \<times> new_rules" where
  "atomize_declaration encodeClassName toUpperCase opts r d st =
     (case st of (classMap, newRules) \<Rightarrow>
        (case encoded_name encodeClassName toUpperCase opts r d of
           Inl e \<Rightarrow> Inl e
         | Inr encodedClassName \<Rightarrow>
             (case updateClassMap classMap (rule_selectors r) encodedClassName of
                Inl e \<Rightarrow> Inl e
              | Inr classMap' \<Rightarrow>
                  Inr (classMap',
                       obj_set encodedClassName
                         \<lparr>out_selectors = [[Some encodedClassName]], out_declarations = [d]\<rparr>
                         newRules))))"

text \<open>
  The test of line 188 on the first component of the first selector: such a rule is
  handed to \<open>handleNonClasses\<close>, every other rule is atomized.
\<close>

definition is_non_class :: "component \<Rightarrow> bool" where
  "is_non_class c =
     (comp_type c = ''tag'' \<or> (comp_type c = ''attribute'' \<and> comp_name c \<noteq> Some ''class''))"

text \<open>The body of \<open>parsed.stylesheet.rules.forEach\<close> (lines 182 to 225).\<close>

definition atomize_rule ::
    "encodeClassName \<Rightarrow> toUpperCase \<Rightarrow> options \<Rightarrow> rule \<Rightarrow> class_map \<times> new_rules
      \<Rightarrow> error + class_map \<times> new_rules" where
  "atomize_rule encodeClassName toUpperCase opts r0 st =
     (let r = recursivelyRemovePosition_rule r0
      in case rule_selectors r of
           (c # cs) # selectors \<Rightarrow>
             if is_non_class c then
               (case st of (classMap, newRules) \<Rightarrow>
                  (case handleNonClasses r newRules of
                     Inl e \<Rightarrow> Inl e
                   | Inr newRules' \<Rightarrow> Inr (classMap, newRules')))
             else forEach (atomize_declaration encodeClassName toUpperCase opts r) (rule_declarations r) st
         | _ \<Rightarrow> Inl TypeError)"

text \<open>
  \<open>recursivelyRemovePosition(newRules)\<close> (line 227) on the table itself. The table is an
  object, so line 21 calls \<open>item.hasOwnProperty\<close>: when the table has an own key
  \<open>hasOwnProperty\<close>, that is the rule stored there, not a function, and the call throws.
  Otherwise an own key \<open>position\<close> is deleted with the rule stored under it, and the walk
  goes on into every remaining rule.
\<close>

definition recursivelyRemovePosition_newRules :: "new_rules \<Rightarrow> error + new_rules" where
  "recursivelyRemovePosition_newRules newRules =
     (if ''hasOwnProperty'' \<in> fst ` set newRules then Inl TypeError
      else Inr (map (\<lambda>(key, r). (key, recursivelyRemovePosition_out_rule r))
                  (AList.delete ''position'' newRules)))"

section \<open>The uglifier pass\<close>

text \<open>\<open>array.indexOf(x)\<close>, with \<open>None\<close> for \<open>-1\<close>.\<close>

fun indexOf :: "'a list \<Rightarrow> 'a \<Rightarrow> nat option" where
  "indexOf [] x = None"
| "indexOf (y # ys) x = (if y = x then Some 0 else map_option Suc (indexOf ys x))"

text \<open>
  The body of the inner loop over the class map (lines 250 to 256): in the array stored
  under \<open>mapKey\<close>, the first entry equal to the old name up to its first colon is replaced
  by the short name.
\<close>

definition rename_in_classMap :: "string \<Rightarrow> string \<Rightarrow> string \<Rightarrow> class_map \<Rightarrow> class_map" where
  "rename_in_classMap key name mapKey classMap =
     (case map_of classMap mapKey of
        None \<Rightarrow> classMap
      | Some xs \<Rightarrow>
          (case indexOf xs (split0 key) of
             None \<Rightarrow> classMap
           | Some indexOfKey \<Rightarrow> AList.update mapKey (xs[indexOfKey := name]) classMap))"

text \<open>
  \<open>rule.selectors[0][0] = uglifiedName\<close>: the assignment throws when the rule has no
  selector, and extends an empty selector.
\<close>

definition set_first_selector :: "string \<Rightarrow> out_rule \<Rightarrow> error + out_rule" where
  "set_first_selector uglifiedName r =
     (case out_selectors r of
        [] \<Rightarrow> Inl TypeError
      | [] # selectors \<Rightarrow> Inr (r\<lparr>out_selectors := [Some uglifiedName] # selectors\<rparr>)
      | (s # ss) # selectors \<Rightarrow> Inr (r\<lparr>out_selectors := (Some uglifiedName # ss) # selectors\<rparr>))"

text \<open>
  The pseudo suffix of a key (lines 235 to 240): empty when the key has no colon,
  otherwise a colon followed by the pieces after the first, joined by colons.
\<close>

definition pseudo_suffix :: "string \<Rightarrow> string" where
  "pseudo_suffix key =
     (if CHR '':'' \<in> set key then '':'' @ join '':'' (tl (split CHR '':'' key)) else [])"

text \<open>
  The body of the loop over the keys of the new-rules table (lines 233 to 258). The state
  is the counter, the table and the class map. The rule found under the key is stored
  under the new name, given that name as its first selector, and the old key is deleted.
  (Under the new name \<open>__proto__\<close> the rule becomes the prototype of the table, line 247
  finds it there, and no own key is added.)
\<close>

definition uglify_key ::
    "cssUglifier \<Rightarrow> string \<Rightarrow> nat \<times> new_rules \<times> class_map
      \<Rightarrow> error + nat \<times> new_rules \<times> class_map" where
  "uglify_key cssUglifier key st =
     (case st of (index, newRules, classMap) \<Rightarrow>
        if startsWith key CHR ''.'' then
          (let pseudo = pseudo_suffix key;
               (name, index') = cssUglifier index;
               uglifiedName = name @ pseudo
           in case map_of newRules key of
                None \<Rightarrow> Inl TypeError
              | Some r \<Rightarrow>
                  (case set_first_selector uglifiedName r of
                     Inl e \<Rightarrow> Inl e
                   | Inr r' \<Rightarrow>
                       Inr (index',
                            AList.delete key (obj_set uglifiedName r' newRules),
                            fold (rename_in_classMap key name) (Object_keys classMap) classMap)))
        else Inr st)"

definition uglify_pass :: "cssUglifier \<Rightarrow> new_rules \<Rightarrow> class_map \<Rightarrow> error + new_rules \<times> class_map" where
  "uglify_pass cssUglifier newRules classMap =
     (case forEach (uglify_key cssUglifier) (Object_keys newRules) (0, newRules, classMap) of
        Inl e \<Rightarrow> Inl e
      | Inr (index, newRules', classMap') \<Rightarrow> Inr (newRules', classMap'))"

section \<open>The entry point\<close>

text \<open>
  The rules pushed onto \<open>output.stylesheet.rules\<close> (lines 261 to 263): the values of the
  table in the order of \<open>Object.keys\<close>.
\<close>

definition output_rules :: "new_rules \<Rightarrow> out_rule list" where
  "output_rules newRules = List.map_filter (map_of newRules) (Object_keys newRules)"

text \<open>
  Lines 111 to 263 of \<open>css\<close>, from the parsed stylesheet to the class map and the list of
  rules handed to the serializer.
\<close>

definition atomize ::
    "encodeClassName \<Rightarrow> toUpperCase \<Rightarrow> cssUglifier \<Rightarrow> options \<Rightarrow> rule ast \<Rightarrow> bool
      \<Rightarrow> error + class_map \<times> out_rule list" where
  "atomize encodeClassName toUpperCase cssUglifier opts parsed uglify =
     (case parsed of
        Rules rules \<Rightarrow>
          (case forEach (atomize_rule encodeClassName toUpperCase opts) rules ([], []) of
             Inl e \<Rightarrow> Inl e
           | Inr (classMap0, newRules0) \<Rightarrow>
               (case recursivelyRemovePosition_newRules newRules0 of
                  Inl e \<Rightarrow> Inl e
                | Inr newRules \<Rightarrow>
                    (let classMap = removeIdenticalProperties classMap0
                     in if uglify then
                          (case uglify_pass cssUglifier newRules classMap of
                             Inl e \<Rightarrow> Inl e
                           | Inr (newRules', classMap') \<Rightarrow> Inr (classMap', output_rules newRules'))
                        else Inr (classMap, output_rules newRules))))
      | _ \<Rightarrow> Inl TypeError)"

text \<open>
  Lines 94 and 95: \<open>options || {}\<close> and \<open>input || ''\<close>. A missing argument is \<open>None\<close>;
  the verbose flag of the empty object is falsy.
\<close>

definition options_or_empty :: "options option \<Rightarrow> options" where
  "options_or_empty options0 = (case options0 of None \<Rightarrow> \<lparr>verbose = False\<rparr> | Some opts \<Rightarrow> opts)"

definition input_or_empty :: "string option \<Rightarrow> string" where
  "input_or_empty input0 = (case input0 of None \<Rightarrow> [] | Some text \<Rightarrow> text)"

definition empty_result :: result where
  "empty_result = \<lparr>res_classMap = [], res_output = []\<rparr>"

text \<open>
  \<open>css(options, input, uglify)\<close>. The reports made so far are passed in and the reports
  of this call are added to them. An exception of the parser is reported and leaves
  \<open>parsed\<close> undefined; a falsy \<open>parsed\<close> is reported and gives the empty result.
\<close>

definition css ::
    "cssParser \<Rightarrow> encodeClassName \<Rightarrow> toUpperCase \<Rightarrow> cssUglifier \<Rightarrow> cssStringify
      \<Rightarrow> options option \<Rightarrow> string option \<Rightarrow> bool \<Rightarrow> report list
      \<Rightarrow> (error + result) \<times> report list" where
  "css cssParser encodeClassName toUpperCase cssUglifier cssStringify options0 input0 uglify log =
     (let opts = options_or_empty options0;
          input = input_or_empty input0;
          (outcome, reports) = cssParser opts input;
          log1 = log @ reports;
          (parsed, log2) =
            (case outcome of
               Inl err \<Rightarrow> (None, throwError [Opts opts, Str ''Error parsing CSS'', Exn err] log1)
             | Inr parsed \<Rightarrow> (parsed, log1))
      in case parsed of
           None \<Rightarrow>
             (Inr empty_result,
              throwError [Opts opts, Str ''Error parsing CSS'', Str input] log2)
         | Some tree \<Rightarrow>
             (case atomize encodeClassName toUpperCase cssUglifier opts tree uglify of
                Inl e \<Rightarrow> (Inl e, log2)
              | Inr (classMap, rules) \<Rightarrow>
                  (Inr \<lparr>res_classMap = classMap, res_output = cssStringify rules\<rparr>, log2)))"

section \<open>What a call leaves behind\<close>

text \<open>
  \<open>css.js\<close> has no variable at module level besides its imports and its functions: the
  class map, the table, the counter and the output tree are created by each call (lines
  111 to 120 and 232). What outlives a call, apart from the result handed to the caller,
  is what the call did to objects that it did not create: the reports made through the
  hook, and the parsed tree, whose rules line 183 strips in place. A rule is stripped
  before anything else is done with it, so after an exception the rules up to the one at
  which it was thrown are stripped and the rules behind it are as they were.
\<close>

fun rules_after ::
    "encodeClassName \<Rightarrow> toUpperCase \<Rightarrow> options \<Rightarrow> rule list \<Rightarrow> class_map \<times> new_rules
      \<Rightarrow> rule list" where
  "rules_after encodeClassName toUpperCase opts [] st = []"
| "rules_after encodeClassName toUpperCase opts (r # rs) st =
     recursivelyRemovePosition_rule r #
       (case atomize_rule encodeClassName toUpperCase opts r st of
          Inl e \<Rightarrow> rs
        | Inr st' \<Rightarrow> rules_after encodeClassName toUpperCase opts rs st')"

definition tree_after :: "encodeClassName \<Rightarrow> toUpperCase \<Rightarrow> options \<Rightarrow> rule ast \<Rightarrow> rule ast" where
  "tree_after encodeClassName toUpperCase opts parsed =
     (case parsed of
        Rules rules \<Rightarrow> Rules (rules_after encodeClassName toUpperCase opts rules ([], []))
      | other \<Rightarrow> other)"

text \<open>
  A parser that keeps the tree it built and hands the same object out again: on a later
  call \<open>css\<close> receives the tree as the earlier call left it.
\<close>

definition cssParser_reusing :: "cssParser \<Rightarrow> encodeClassName \<Rightarrow> toUpperCase \<Rightarrow> cssParser" where
  "cssParser_reusing cssParser encodeClassName toUpperCase opts input =
     (case cssParser opts input of
        (Inr (Some parsed), reports) \<Rightarrow>
          (Inr (Some (tree_after encodeClassName toUpperCase opts parsed)), reports)
      | other \<Rightarrow> other)"

section \<open>Readings of the specification\<close>

text \<open>
  The entries of a sequence that are the last occurrence of their value, in the order in
  which they stand.
\<close>

definition last_occurrences :: "'a list \<Rightarrow> 'a list" where
  "last_occurrences xs =
     map (\<lambda>i. xs ! i) (filter (\<lambda>i. xs ! i \<notin> set (drop (Suc i) xs)) [0..<length xs])"

text \<open>
  A text up to its first colon (the whole text when it has none), and a text from its
  first colon onward (nothing when it has none).
\<close>

definition before_colon :: "string \<Rightarrow> string" where
  "before_colon s = takeWhile (\<lambda>c. c \<noteq> CHR '':'') s"

definition from_colon :: "string \<Rightarrow> string" where
  "from_colon s = dropWhile (\<lambda>c. c \<noteq> CHR '':'') s"

text \<open>The values that the class map holds for a selector: none when it has no entry.\<close>

definition classMap_entries :: "class_map \<Rightarrow> string \<Rightarrow> string list" where
  "classMap_entries classMap name = (case map_of classMap name of None \<Rightarrow> [] | Some xs \<Rightarrow> xs)"

text \<open>
  The parser interface of the specification: every rule has a selector, every selector
  has a first component with its \<open>original\<close> text, and a pseudo component has a name.
  Moreover, no selector of a rule that is atomized is, up to its first colon, the name of
  a member of \<open>Object.prototype\<close> (as the tag selector \<open>constructor\<close> would be).
\<close>

definition first_component :: "rule \<Rightarrow> component option" where
  "first_component r = (case rule_selectors r of (c # cs) # selectors \<Rightarrow> Some c | _ \<Rightarrow> None)"

definition well_formed_selector :: "component list \<Rightarrow> bool" where
  "well_formed_selector sel = (case sel of [] \<Rightarrow> False | c # cs \<Rightarrow> comp_original c \<noteq> None)"

definition names_inherited_member :: "component list \<Rightarrow> bool" where
  "names_inherited_member sel =
     (case sel of
        [] \<Rightarrow> False
      | c # cs \<Rightarrow>
          (case comp_original c of
             None \<Rightarrow> False
           | Some text \<Rightarrow> before_colon text \<in> set Object_prototype_names))"

definition well_formed_rule :: "rule \<Rightarrow> bool" where
  "well_formed_rule r =
     (rule_selectors r \<noteq> [] \<and> list_all well_formed_selector (rule_selectors r) \<and>
      (case pseudo_component r of None \<Rightarrow> True | Some c' \<Rightarrow> comp_name c' \<noteq> None) \<and>
      (case first_component r of
         None \<Rightarrow> True
       | Some c \<Rightarrow> is_non_class c \<or> list_all (\<lambda>sel. \<not> names_inherited_member sel) (rule_selectors r)))"

text \<open>
  The assignments that a rule makes to the new-rules table, in the order in which it
  makes them: one under the selector text for a rule handed to \<open>handleNonClasses\<close>, one per
  declaration under its name for every other rule.
\<close>

definition rule_writes ::
    "encodeClassName \<Rightarrow> toUpperCase \<Rightarrow> options \<Rightarrow> rule \<Rightarrow> (string \<times> out_rule) list" where
  "rule_writes encodeClassName toUpperCase opts r0 =
     (let r = recursivelyRemovePosition_rule r0
      in case first_component r of
           None \<Rightarrow> []
         | Some c \<Rightarrow>
             if is_non_class c then
               [(property_key (comp_original c),
                 \<lparr>out_selectors = [[comp_original c]], out_declarations = rule_declarations r\<rparr>)]
             else
               List.map_filter
                 (\<lambda>d. case encoded_name encodeClassName toUpperCase opts r d of
                        Inl e \<Rightarrow> None
                      | Inr key \<Rightarrow>
                          Some (key, \<lparr>out_selectors = [[Some key]], out_declarations = [d]\<rparr>))
                 (rule_declarations r))"

definition rule_keys :: "encodeClassName \<Rightarrow> toUpperCase \<Rightarrow> options \<Rightarrow> rule \<Rightarrow> string list" where
  "rule_keys encodeClassName toUpperCase opts r = map fst (rule_writes encodeClassName toUpperCase opts r)"

text \<open>
  The three names under which the table does not behave as a table: \<open>__proto__\<close> (nothing
  is stored), \<open>hasOwnProperty\<close> (line 227 throws) and \<open>position\<close> (line 227 deletes the
  rule). A stylesheet has plain keys when none of its rules assigns under such a name.
\<close>

definition special_keys :: "string list" where
  "special_keys = [''__proto__'', ''hasOwnProperty'', ''position'']"

definition plain_keys :: "encodeClassName \<Rightarrow> toUpperCase \<Rightarrow> options \<Rightarrow> rule list \<Rightarrow> bool" where
  "plain_keys encodeClassName toUpperCase opts rules =
     list_all (\<lambda>r. list_all (\<lambda>key. key \<notin> set special_keys)
                      (rule_keys encodeClassName toUpperCase opts r)) rules"

text \<open>
  The classification of the specification: a rule is class-targeted when the first
  component of its first selector is an attribute named \<open>class\<close>.
\<close>

definition is_class_component :: "component \<Rightarrow> bool" where
  "is_class_component c = (comp_type c = ''attribute'' \<and> comp_name c = Some ''class'')"

text \<open>
  The uglified-name table of the specification: the short names in the order in which
  the pass draws them, one for every key that begins with a dot, each drawn at the
  counter that the previous draw returned.
\<close>

fun draw_names :: "cssUglifier \<Rightarrow> string list \<Rightarrow> nat \<Rightarrow> (string \<times> string) list" where
  "draw_names cssUglifier [] index = []"
| "draw_names cssUglifier (key # keys) index =
     (if startsWith key CHR ''.''
      then (key, fst (cssUglifier index)) # draw_names cssUglifier keys (snd (cssUglifier index))
      else draw_names cssUglifier keys index)"

definition uglified_names :: "cssUglifier \<Rightarrow> new_rules \<Rightarrow> (string \<times> string) list" where
  "uglified_names cssUglifier newRules = draw_names cssUglifier (Object_keys newRules) 0"

text \<open>
  What the specification asks of the pass, given the names drawn. A value of the class
  map that is an old key up to its first colon becomes the short name drawn for (the
  first such) key; every other value is kept. A rule stored under a key for which a name
  was drawn moves to the end of the table, under the short name followed by the old key
  from its first colon onward, and has that as its selector; the other rules stay.
\<close>

definition rename_value :: "(string \<times> string) list \<Rightarrow> string \<Rightarrow> string" where
  "rename_value names v =
     (case find (\<lambda>(key, name). before_colon key = v) names of
        None \<Rightarrow> v
      | Some (key, name) \<Rightarrow> name)"

definition uglified_classMap :: "class_map \<Rightarrow> (string \<times> string) list \<Rightarrow> class_map" where
  "uglified_classMap classMap names =
     map (\<lambda>(mapKey, xs). (mapKey, map (rename_value names) xs)) classMap"

definition uglified_rule :: "new_rules \<Rightarrow> string \<times> string \<Rightarrow> (string \<times> out_rule) option" where
  "uglified_rule newRules = (\<lambda>(key, name).
     map_option
       (\<lambda>r. (name @ from_colon key, r\<lparr>out_selectors := [[Some (name @ from_colon key)]]\<rparr>))
       (map_of newRules key))"

definition uglified_table :: "new_rules \<Rightarrow> (string \<times> string) list \<Rightarrow> new_rules" where
  "uglified_table newRules names =
     AList.restrict (- fst ` set names) newRules
     @ List.map_filter (uglified_rule newRules) names"

text \<open>
  The contract of the short-name generator, for the keys \<open>keys\<close> of the table on which the
  pass runs: the name is injective in the counter; the counter returned is beyond the one
  given; and no name contains a colon, is \<open>__proto__\<close>, or equals a key of the table up to
  its first colon.
\<close>

definition never_collides :: "cssUglifier \<Rightarrow> string set \<Rightarrow> bool" where
  "never_collides cssUglifier keys =
     (inj (\<lambda>index. fst (cssUglifier index)) \<and>
      (\<forall>index. index < snd (cssUglifier index)) \<and>
      (\<forall>index. CHR '':'' \<notin> set (fst (cssUglifier index)) \<and>
               fst (cssUglifier index) \<noteq> ''__proto__'' \<and>
               fst (cssUglifier index) \<notin> before_colon ` keys))"

section \<open>Sample collaborators\<close>

text \<open>Concrete collaborators, for running the model on concrete stylesheets.\<close>

definition throwing_parse :: css_parse where
  "throwing_parse silent text = Inl (LibraryError ''missing }'')"

definition falsy_parse :: css_parse where
  "falsy_parse silent text = Inr None"

definition no_selectors :: selectorParse where
  "no_selectors text = Inr []"

definition sample_encoder :: encodeClassName where
  "sample_encoder opts d = ''.rp__'' @ property d @ ''__--COLON'' @ decl_value d"

text \<open>The upper-casing of ASCII text: the letters a to z are raised.\<close>

definition sample_toUpperCase_char :: "char \<Rightarrow> char" where
  "sample_toUpperCase_char c =
     (case map_of (zip ''abcdefghijklmnopqrstuvwxyz'' ''ABCDEFGHIJKLMNOPQRSTUVWXYZ'') c of
        None \<Rightarrow> c
      | Some u \<Rightarrow> u)"

definition sample_toUpperCase :: toUpperCase where
  "sample_toUpperCase s = map sample_toUpperCase_char s"

definition sample_uglifier :: cssUglifier where
  "sample_uglifier index = (''.rp__'' @ replicate (Suc index) CHR ''a'', Suc index)"

text \<open>
  A generator that is injective in its counter and returns the next counter, but whose
  first name is a name that the sample encoder produces.
\<close>

definition colliding_uglifier :: cssUglifier where
  "colliding_uglifier index =
     (if index = 0 then ''.rp__margin__--COLON0'' else ''.rp__'' @ replicate index CHR ''a'',
      Suc index)"

definition sample_selector :: "string option list \<Rightarrow> string" where
  "sample_selector s = concat (map property_key s)"

definition sample_stringify :: cssStringify where
  "sample_stringify rules =
     concat (map (\<lambda>r. join '','' (map sample_selector (out_selectors r)) @ ''{''
                        @ concat (map (\<lambda>d. property d @ '':'' @ decl_value d @ '';'')
                                    (out_declarations r))
                        @ ''}'')
                 rules)"

text \<open>
  A stand-in for \<open>css.parse\<close> and for the selector parser: each knows a few texts and
  throws on every other. Declarations and rules come with positions, and the selector
  components come without \<open>original\<close>, as from the libraries.
\<close>

definition sample_decl :: "string \<Rightarrow> string \<Rightarrow> nat \<Rightarrow> decl" where
  "sample_decl p v column =
     \<lparr>property = p, decl_value = v,
      decl_position = Some ((1, column), (1, column + length p + length v + 1))\<rparr>"

definition sample_raw_rule :: "string list \<Rightarrow> decl list \<Rightarrow> nat \<Rightarrow> raw_rule" where
  "sample_raw_rule texts ds column =
     \<lparr>raw_selectors = Some texts, raw_declarations = ds,
      raw_position = Some ((1, column), (1, column + 20))\<rparr>"

definition sample_sheets :: "(string \<times> raw_rule list) list" where
  "sample_sheets =
     [(''.a:hover{color:red}'',
         [sample_raw_rule [''.a:hover''] [sample_decl ''color'' ''red'' 10] 1]),
      (''div,span{color:red}'',
         [sample_raw_rule [''div'', ''span''] [sample_decl ''color'' ''red'' 10] 1]),
      (''.a{color:red}.b{color:red}'',
         [sample_raw_rule [''.a''] [sample_decl ''color'' ''red'' 4] 1,
          sample_raw_rule [''.b''] [sample_decl ''color'' ''red'' 17] 14]),
      (''div{color:red}div{margin:0}'',
         [sample_raw_rule [''div''] [sample_decl ''color'' ''red'' 5] 1,
          sample_raw_rule [''div''] [sample_decl ''margin'' ''0'' 19] 15]),
      (''div{color:red}div{margin:0}div{top:1}'',
         [sample_raw_rule [''div''] [sample_decl ''color'' ''red'' 5] 1,
          sample_raw_rule [''div''] [sample_decl ''margin'' ''0'' 19] 15,
          sample_raw_rule [''div''] [sample_decl ''top'' ''1'' 32] 28]),
      (''.a{color:red;margin:0}'',
         [sample_raw_rule [''.a''] [sample_decl ''color'' ''red'' 4, sample_decl ''margin'' ''0'' 14] 1]),
      (''.a{color:red}.a:hover{color:blue}div{margin:0}'',
         [sample_raw_rule [''.a''] [sample_decl ''color'' ''red'' 4] 1,
          sample_raw_rule [''.a:hover''] [sample_decl ''color'' ''blue'' 23] 14,
          sample_raw_rule [''div''] [sample_decl ''margin'' ''0'' 38] 34])]"

definition sample_parse :: css_parse where
  "sample_parse silent text =
     (case map_of sample_sheets text of
        None \<Rightarrow> Inl (LibraryError ''unsupported stylesheet'')
      | Some rules \<Rightarrow> Inr (Some (Rules rules)))"

definition sample_class :: component where
  "sample_class = \<lparr>comp_type = ''attribute'', comp_name = Some ''class'', comp_original = None\<rparr>"

definition sample_tag :: "string \<Rightarrow> component" where
  "sample_tag name = \<lparr>comp_type = ''tag'', comp_name = Some name, comp_original = None\<rparr>"

definition sample_pseudo :: "string \<Rightarrow> component" where
  "sample_pseudo name = \<lparr>comp_type = ''pseudo'', comp_name = Some name, comp_original = None\<rparr>"

definition sample_selectors :: "(string \<times> component list list) list" where
  "sample_selectors =
     [(''.a'', [[sample_class]]),
      (''.b'', [[sample_class]]),
      (''.a:hover'', [[sample_class, sample_pseudo ''hover'']]),
      (''div'', [[sample_tag ''div'']]),
      (''div,span'', [[sample_tag ''div''], [sample_tag ''span'']])]"

definition sample_selectorParse :: selectorParse where
  "sample_selectorParse text =
     (case map_of sample_selectors text of
        None \<Rightarrow> Inl (LibraryError ''unsupported selector'')
      | Some parsedSelectors \<Rightarrow> Inr parsedSelectors)"

section \<open>Properties of the object model\<close>

lemma set_Object_keys: "set (Object_keys t) = fst ` set t"
  by (auto simp: Object_keys_def)

lemma mset_Object_keys: "mset (Object_keys t) = mset (map fst t)"
proof -
  have "mset (Object_keys t) =
      mset (filter is_array_index (map fst t)) + mset (filter (\<lambda>k. \<not> is_array_index k) (map fst t))"
    by (simp add: Object_keys_def)
  then show ?thesis
    by (metis mset_filter multiset_partition)
qed

lemma distinct_Object_keys: "distinct (Object_keys t) = distinct (map fst t)"
  by (metis mset_Object_keys mset_eq_imp_distinct_iff)

section \<open>Deduplication keeps last occurrences\<close>

lemma rev_foldr_Set_add:
  "rev (foldr (\<lambda>x s. Set_add s x) xs []) = remdups xs \<and> set (foldr (\<lambda>x s. Set_add s x) xs []) = set xs"
  by (induction xs) (auto simp: Set_add_def)

lemma rev_new_Set_rev: "rev (new_Set (rev xs)) = remdups xs"
  by (simp add: new_Set_def foldl_conv_foldr rev_foldr_Set_add)

lemma last_occurrences_Cons:
  "last_occurrences (x # xs) = (if x \<in> set xs then last_occurrences xs else x # last_occurrences xs)"
proof -
  have upt: "[0..<length (x # xs)] = 0 # map Suc [0..<length xs]"
    by (simp add: upt_conv_Cons map_Suc_upt del: upt_Suc)
  show ?thesis
    unfolding last_occurrences_def upt
    by (simp add: filter_map comp_def)
qed

lemma remdups_last_occurrences: "remdups xs = last_occurrences xs"
  by (induction xs) (simp_all add: last_occurrences_Cons, simp add: last_occurrences_def)

lemma map_of_removeIdenticalProperties_at:
  "map_of (removeIdenticalProperties_at s cm) k =
     (if k = s then map_option remdups (map_of cm k) else map_of cm k)"
  by (auto simp: removeIdenticalProperties_at_def update_conv' rev_new_Set_rev split: option.splits)

lemma keys_removeIdenticalProperties_at: "map fst (removeIdenticalProperties_at s cm) = map fst cm"
  by (auto simp: removeIdenticalProperties_at_def update_keys map_of_eq_None_iff split: option.splits)

lemma map_of_fold_removeIdenticalProperties_at:
  "map_of (fold removeIdenticalProperties_at ks cm) k =
     (if k \<in> set ks then map_option remdups (map_of cm k) else map_of cm k)"
  by (induction ks arbitrary: cm)
     (auto simp: map_of_removeIdenticalProperties_at option.map_comp comp_def remdups_remdups)

lemma keys_removeIdenticalProperties:
  "map fst (removeIdenticalProperties cm) = map fst cm"
proof -
  have "map fst (fold removeIdenticalProperties_at ks cm) = map fst cm" for ks
    by (induction ks arbitrary: cm) (auto simp: keys_removeIdenticalProperties_at)
  then show ?thesis
    by (simp add: removeIdenticalProperties_def)
qed

lemma map_of_removeIdenticalProperties:
  "map_of (removeIdenticalProperties cm) k = map_option remdups (map_of cm k)"
proof (cases "map_of cm k")
  case None
  then show ?thesis
    by (simp add: removeIdenticalProperties_def map_of_fold_removeIdenticalProperties_at)
next
  case (Some xs)
  then have "k \<in> fst ` set cm"
    by (metis map_of_eq_None_iff option.distinct(1))
  then show ?thesis
    by (simp add: removeIdenticalProperties_def map_of_fold_removeIdenticalProperties_at
        set_Object_keys)
qed

lemma remdups_replicate_pos: "0 < n \<Longrightarrow> remdups (replicate n v) = [v]"
proof (induction n)
  case 0
  then show ?case by simp
next
  case (Suc n)
  then show ?case by (cases n) simp_all
qed

text \<open>
  C1. \<open>removeIdenticalProperties\<close> keeps the keys of the class map, and the sequence
  stored under any key is replaced by its last occurrences: the entries that do not occur
  again further right, in the order in which they stand. Every value of the old sequence
  occurs exactly once in the new one; \<open>n\<close> copies of one value become a single entry;
  and a sequence without repetition is unchanged.
\<close>

theorem removeIdenticalProperties_last_occurrence:
  assumes "map_of classMap selector = Some xs"
  shows "map fst (removeIdenticalProperties classMap) = map fst classMap \<and>
    (\<exists>ys. map_of (removeIdenticalProperties classMap) selector = Some ys \<and>
       ys = last_occurrences xs \<and>
       distinct ys \<and> set ys = set xs \<and>
       (\<forall>v\<in>set xs. count_list ys v = 1) \<and>
       (\<forall>n v. 0 < n \<and> xs = replicate n v \<longrightarrow> ys = [v]) \<and>
       (distinct xs \<longrightarrow> ys = xs))"
proof -
  have eq: "map_of (removeIdenticalProperties classMap) selector = Some (remdups xs)"
    using assms by (simp add: map_of_removeIdenticalProperties)
  have cnt: "\<forall>v\<in>set xs. count_list (remdups xs) v = 1"
    using distinct_count_atmost_1 [of "remdups xs"] by (simp add: count_mset)
  have rep: "\<forall>n v. 0 < n \<and> xs = replicate n v \<longrightarrow> remdups xs = [v]"
  proof (intro allI impI)
    fix n v
    assume "0 < n \<and> xs = replicate n v"
    then show "remdups xs = [v]"
      by (simp add: remdups_replicate_pos)
  qed
  have lo: "remdups xs = last_occurrences xs"
    by (rule remdups_last_occurrences)
  have keys: "map fst (removeIdenticalProperties classMap) = map fst classMap"
    by (rule keys_removeIdenticalProperties)
  have dist: "distinct xs \<longrightarrow> remdups xs = xs"
    by (simp add: distinct_remdups_id)
  have d: "distinct (remdups xs)" and st: "set (remdups xs) = set xs"
    by simp_all
  show ?thesis
    using keys eq lo d st cnt rep dist
    by (intro conjI exI [where x = "remdups xs"]) assumption+
qed

theorem removeIdenticalProperties_last_occurrence_witness:
  "map_of (removeIdenticalProperties
             [(''.a'', [''red'', ''block'', ''red'']), (''.b'', [''red'', ''red''])]) ''.a''
     = Some [''block'', ''red'']"
proof -
  have h: "map_of [(''.a'', [''red'', ''block'', ''red'']), (''.b'', [''red'', ''red''])] ''.a''
      = Some [''red'', ''block'', ''red'']"
    by simp
  have l: "last_occurrences [''red'', ''block'', ''red''] = [''block'', ''red'']"
    by (simp add: last_occurrences_Cons) (simp add: last_occurrences_def)
  show ?thesis
    using removeIdenticalProperties_last_occurrence [OF h] unfolding l by blast
qed

section \<open>Parse failure\<close>

lemma css_parser_threw:
  assumes "cssParser (options_or_empty options0) (input_or_empty input0) = (Inl err, reports)"
  shows "css cssParser E toUpperCase U S options0 input0 uglify log =
     (Inr empty_result,
      log @ reports @
        [[Opts (options_or_empty options0), Str ''Error parsing CSS'', Exn err],
         [Opts (options_or_empty options0), Str ''Error parsing CSS'', Str (input_or_empty input0)]])"
  using assms by (simp add: css_def throwError_def Let_def)

lemma css_parser_falsy:
  assumes "cssParser (options_or_empty options0) (input_or_empty input0) = (Inr None, reports)"
  shows "css cssParser E toUpperCase U S options0 input0 uglify log =
     (Inr empty_result,
      log @ reports @
        [[Opts (options_or_empty options0), Str ''Error parsing CSS'', Str (input_or_empty input0)]])"
  using assms by (simp add: css_def throwError_def Let_def)

lemma cssParser_with_empty:
  "cssParser_with prepare parse selectorParse opts [] = (Inr None, [[Str ''Invalid CSS input.'']])"
  by (simp add: cssParser_with_def throwError_def)

text \<open>
  C4. A parse failure gives the empty result and is reported. On a missing or empty input
  the parser wrapper (either version) makes its own call of the hook and returns
  \<open>undefined\<close>; \<open>css\<close> then reports \<open>'Error parsing CSS'\<close> with the input and returns
  \<open>{classMap: {}, output: ''}\<close>. When the parser throws, the exception is reported, and
  then the falsy \<open>parsed\<close> is reported and the empty result returned. When the parser
  returns a falsy tree, that is reported and the empty result returned.
\<close>

theorem css_parse_failure_empty_result:
  "(input0 = None \<or> input0 = Some [] \<longrightarrow>
      css (cssParser_with prepare parse selectorParse) E toUpperCase U S options0 input0 uglify log =
        (Inr \<lparr>res_classMap = [], res_output = []\<rparr>,
         log @ [[Str ''Invalid CSS input.''],
                [Opts (options_or_empty options0), Str ''Error parsing CSS'', Str []]])) \<and>
   (cssParser (options_or_empty options0) (input_or_empty input0) = (Inl err, reports) \<longrightarrow>
      css cssParser E toUpperCase U S options0 input0 uglify log =
        (Inr \<lparr>res_classMap = [], res_output = []\<rparr>,
         log @ reports @
           [[Opts (options_or_empty options0), Str ''Error parsing CSS'', Exn err],
            [Opts (options_or_empty options0), Str ''Error parsing CSS'',
             Str (input_or_empty input0)]])) \<and>
   (cssParser (options_or_empty options0) (input_or_empty input0) = (Inr None, reports) \<longrightarrow>
      css cssParser E toUpperCase U S options0 input0 uglify log =
        (Inr \<lparr>res_classMap = [], res_output = []\<rparr>,
         log @ reports @
           [[Opts (options_or_empty options0), Str ''Error parsing CSS'',
             Str (input_or_empty input0)]]))"
proof (intro conjI impI)
  assume "input0 = None \<or> input0 = Some []"
  then have "input_or_empty input0 = []"
    by (auto simp: input_or_empty_def)
  then show "css (cssParser_with prepare parse selectorParse) E toUpperCase U S options0 input0 uglify log =
        (Inr \<lparr>res_classMap = [], res_output = []\<rparr>,
         log @ [[Str ''Invalid CSS input.''],
                [Opts (options_or_empty options0), Str ''Error parsing CSS'', Str []]])"
    using css_parser_falsy [of "cssParser_with prepare parse selectorParse" options0 input0
        "[[Str ''Invalid CSS input.'']]"]
    by (simp add: cssParser_with_empty empty_result_def)
next
  assume "cssParser (options_or_empty options0) (input_or_empty input0) = (Inl err, reports)"
  then show "css cssParser E toUpperCase U S options0 input0 uglify log =
        (Inr \<lparr>res_classMap = [], res_output = []\<rparr>,
         log @ reports @
           [[Opts (options_or_empty options0), Str ''Error parsing CSS'', Exn err],
            [Opts (options_or_empty options0), Str ''Error parsing CSS'',
             Str (input_or_empty input0)]])"
    by (simp add: css_parser_threw empty_result_def)
next
  assume "cssParser (options_or_empty options0) (input_or_empty input0) = (Inr None, reports)"
  then show "css cssParser E toUpperCase U S options0 input0 uglify log =
        (Inr \<lparr>res_classMap = [], res_output = []\<rparr>,
         log @ reports @
           [[Opts (options_or_empty options0), Str ''Error parsing CSS'',
             Str (input_or_empty input0)]])"
    by (simp add: css_parser_falsy empty_result_def)
qed

theorem css_parse_failure_empty_result_witness:
  "css (cssParser_stripping throwing_parse no_selectors) sample_encoder sample_toUpperCase sample_uglifier sample_stringify None None False [] =
     (Inr \<lparr>res_classMap = [], res_output = []\<rparr>,
      [[Str ''Invalid CSS input.''],
       [Opts \<lparr>verbose = False\<rparr>, Str ''Error parsing CSS'', Str []]]) \<and>
   css (cssParser_stripping throwing_parse no_selectors) sample_encoder sample_toUpperCase sample_uglifier sample_stringify None (Some ''.a {'') False [] =
     (Inr \<lparr>res_classMap = [], res_output = []\<rparr>,
      [[Opts \<lparr>verbose = False\<rparr>, Str ''Error parsing CSS'', Exn (LibraryError ''missing }'')],
       [Opts \<lparr>verbose = False\<rparr>, Str ''Error parsing CSS'', Str ''.a {'']]) \<and>
   css (cssParser_keeping falsy_parse no_selectors) sample_encoder sample_toUpperCase sample_uglifier sample_stringify None (Some ''.a {'') True [] =
     (Inr \<lparr>res_classMap = [], res_output = []\<rparr>,
      [[Opts \<lparr>verbose = False\<rparr>, Str ''Error parsing CSS'', Str ''.a {'']])"
proof -
  have a: "cssParser_stripping throwing_parse no_selectors (options_or_empty None)
      (input_or_empty (Some ''.a {'')) = (Inl (LibraryError ''missing }''), [])"
    by (simp add: cssParser_stripping_def cssParser_with_def throwing_parse_def
        input_or_empty_def)
  have b: "cssParser_keeping falsy_parse no_selectors (options_or_empty None)
      (input_or_empty (Some ''.a {'')) = (Inr None, [])"
    by (simp add: cssParser_keeping_def cssParser_with_def falsy_parse_def input_or_empty_def)
  show ?thesis
    using css_parse_failure_empty_result
            [of None recursivelyRemovePosition_raw_rule throwing_parse no_selectors sample_encoder sample_toUpperCase sample_uglifier sample_stringify None
                False "[]" "\<lambda>opts text. (Inr None, [])" "LibraryError ''x''" "[]"]
          css_parse_failure_empty_result
            [of "Some ''.a {''" "\<lambda>r. r" falsy_parse no_selectors sample_encoder sample_toUpperCase sample_uglifier sample_stringify None False "[]"
                "cssParser_stripping throwing_parse no_selectors" "LibraryError ''missing }''" "[]"]
          css_parse_failure_empty_result
            [of "Some ''.a {''" "\<lambda>r. r" falsy_parse no_selectors sample_encoder sample_toUpperCase sample_uglifier sample_stringify None True "[]"
                "cssParser_keeping falsy_parse no_selectors" "LibraryError ''x''" "[]"]
          a b
    by (simp add: cssParser_stripping_def options_or_empty_def input_or_empty_def)
qed

section \<open>The two versions of the parser wrapper\<close>

lemma recursivelyRemovePosition_rule_idem:
  "recursivelyRemovePosition_rule (recursivelyRemovePosition_rule r) = recursivelyRemovePosition_rule r"
  by (simp add: recursivelyRemovePosition_rule_def recursivelyRemovePosition_declaration_def comp_def)

lemma atomize_rule_stripped:
  "atomize_rule E toUpperCase opts (recursivelyRemovePosition_rule r) = atomize_rule E toUpperCase opts r"
  by (rule ext) (simp add: atomize_rule_def recursivelyRemovePosition_rule_idem)

lemma forEach_atomize_rule_stripped:
  "forEach (atomize_rule E toUpperCase opts) (map recursivelyRemovePosition_rule rs) st =
   forEach (atomize_rule E toUpperCase opts) rs st"
  by (induction rs arbitrary: st) (simp_all add: atomize_rule_stripped split: sum.splits)

lemma atomize_stripped:
  "atomize E toUpperCase U opts (Rules (map recursivelyRemovePosition_rule rs)) uglify =
   atomize E toUpperCase U opts (Rules rs) uglify"
  by (simp add: atomize_def forEach_atomize_rule_stripped)

lemma parse_rule_selectors_stripped:
  "parse_rule_selectors sp (recursivelyRemovePosition_raw_rule r) =
     (case parse_rule_selectors sp r of
        Inl e \<Rightarrow> Inl e
      | Inr r' \<Rightarrow> Inr (recursivelyRemovePosition_rule r'))"
  by (simp add: parse_rule_selectors_def recursivelyRemovePosition_raw_rule_def
      recursivelyRemovePosition_rule_def split: option.splits sum.splits)

lemma parse_rules_stripped:
  "parse_rules sp (map recursivelyRemovePosition_raw_rule rs) =
     (case parse_rules sp rs of
        Inl e \<Rightarrow> Inl e
      | Inr rs' \<Rightarrow> Inr (map recursivelyRemovePosition_rule rs'))"
  by (induction rs) (simp_all add: parse_rule_selectors_stripped split: sum.splits)

lemma cssParser_stripping_keeping:
  "cssParser_stripping parse sp opts input =
     (case cssParser_keeping parse sp opts input of
        (Inr (Some (Rules rs)), reports) \<Rightarrow>
          (Inr (Some (Rules (map recursivelyRemovePosition_rule rs))), reports)
      | other \<Rightarrow> other)"
  by (simp add: cssParser_stripping_def cssParser_keeping_def cssParser_with_def
      parse_rules_stripped split: sum.splits option.splits ast.splits)

text \<open>
  C9. \<open>css\<close> run on the parser wrapper that strips the positions (part\_000) and \<open>css\<close>
  run on the wrapper that leaves them in place (part\_001) return the same result and
  make the same reports, for every input, configuration and flag and whatever the
  libraries do: the engine strips every rule before it reads it.
\<close>

theorem css_parser_versions_agree:
  "css (cssParser_stripping parse selectorParse) E toUpperCase U S options0 input0 uglify log =
   css (cssParser_keeping parse selectorParse) E toUpperCase U S options0 input0 uglify log"
proof -
  obtain outcome reports where
    k: "cssParser_keeping parse selectorParse (options_or_empty options0) (input_or_empty input0)
          = (outcome, reports)"
    by (cases "cssParser_keeping parse selectorParse (options_or_empty options0)
          (input_or_empty input0)")
  show ?thesis
  proof (cases "\<exists>rs. outcome = Inr (Some (Rules rs))")
    case True
    then obtain rs where o: "outcome = Inr (Some (Rules rs))"
      by blast
    then have "cssParser_stripping parse selectorParse (options_or_empty options0)
        (input_or_empty input0) = (Inr (Some (Rules (map recursivelyRemovePosition_rule rs))), reports)"
      using k by (simp add: cssParser_stripping_keeping)
    then show ?thesis
      using k o by (simp add: css_def Let_def atomize_stripped)
  next
    case False
    then have "cssParser_stripping parse selectorParse (options_or_empty options0)
        (input_or_empty input0) = (outcome, reports)"
      using k by (auto simp: cssParser_stripping_keeping split: sum.splits option.splits ast.splits)
    then show ?thesis
      using k by (simp add: css_def Let_def)
  qed
qed

section \<open>Repeated calls\<close>

lemma css_log:
  "css P E toUpperCase U S options0 input0 uglify log =
     (fst (css P E toUpperCase U S options0 input0 uglify []),
      log @ snd (css P E toUpperCase U S options0 input0 uglify []))"
  by (simp add: css_def Let_def throwError_def split: prod.splits sum.splits option.splits)

text \<open>
  The loop over the rules does on the tree that an earlier run left behind what it does on
  the tree as parsed: it strips every rule again before it reads it.
\<close>

lemma forEach_rules_after:
  "forEach (atomize_rule E toUpperCase opts) (rules_after E toUpperCase opts rs st0) st =
   forEach (atomize_rule E toUpperCase opts) rs st"
proof (induction rs arbitrary: st0 st)
  case Nil
  then show ?case by simp
next
  case (Cons r rs)
  have strip: "atomize_rule E toUpperCase opts (recursivelyRemovePosition_rule r) st =
      atomize_rule E toUpperCase opts r st"
    by (simp add: atomize_rule_stripped)
  show ?case
  proof (cases "atomize_rule E toUpperCase opts r st")
    case (Inl e)
    then show ?thesis
      by (simp add: strip)
  next
    case (Inr st')
    show ?thesis
    proof (cases "atomize_rule E toUpperCase opts r st0")
      case Inl
      with Inr show ?thesis
        by (simp add: strip)
    next
      case after: (Inr st1)
      with Inr Cons.IH [of st1 st'] show ?thesis
        by (simp add: strip)
    qed
  qed
qed

lemma atomize_tree_after:
  "atomize E toUpperCase U opts (tree_after E toUpperCase opts parsed) uglify =
   atomize E toUpperCase U opts parsed uglify"
  by (cases parsed) (simp_all add: tree_after_def atomize_def forEach_rules_after)

lemma css_reusing:
  "css (cssParser_reusing P E toUpperCase) E toUpperCase U S options0 input0 uglify log =
   css P E toUpperCase U S options0 input0 uglify log"
proof -
  obtain outcome reports where
    p: "P (options_or_empty options0) (input_or_empty input0) = (outcome, reports)"
    by (cases "P (options_or_empty options0) (input_or_empty input0)")
  show ?thesis
  proof (cases "\<exists>parsed. outcome = Inr (Some parsed)")
    case True
    then obtain parsed where "outcome = Inr (Some parsed)"
      by blast
    with p show ?thesis
      by (simp add: css_def Let_def cssParser_reusing_def atomize_tree_after)
  next
    case False
    with p have "cssParser_reusing P E toUpperCase (options_or_empty options0)
        (input_or_empty input0) = (outcome, reports)"
      by (auto simp: cssParser_reusing_def split: sum.splits option.splits)
    with p show ?thesis
      by (simp add: css_def Let_def)
  qed
qed

text \<open>
  C8. With the collaborators fixed, what a call of \<open>css\<close> leaves behind does not reach the
  next call. Call \<open>css\<close> once, from the reports \<open>log\<close> made so far. A second call on the
  same arguments, started from the reports left by the first, returns the same class map
  and output (or throws the same exception) and makes the same reports again. So does a
  second call that is handed, by a parser that reuses its tree, the very tree that the
  first call has stripped in place. This holds for either value of the uglify flag, so in
  particular for \<open>false\<close>.
\<close>

theorem css_deterministic:
  assumes "css P E toUpperCase U S options0 input0 uglify log = (r1, log1)"
    and "css P E toUpperCase U S options0 input0 uglify log1 = (r2, log2)"
    and "css (cssParser_reusing P E toUpperCase) E toUpperCase U S options0 input0 uglify log1
           = (r3, log3)"
  shows "r2 = r1 \<and> r3 = r1 \<and>
    (\<exists>reports. log1 = log @ reports \<and> log2 = log1 @ reports \<and> log3 = log1 @ reports)"
proof -
  let ?r = "fst (css P E toUpperCase U S options0 input0 uglify [])"
  let ?l = "snd (css P E toUpperCase U S options0 input0 uglify [])"
  have "(r1, log1) = (?r, log @ ?l)"
    using assms(1) css_log [of P E toUpperCase U S options0 input0 uglify log] by simp
  moreover have "(r2, log2) = (?r, log1 @ ?l)"
    using assms(2) css_log [of P E toUpperCase U S options0 input0 uglify log1] by simp
  moreover have "(r3, log3) = (?r, log1 @ ?l)"
    using assms(3) css_log [of P E toUpperCase U S options0 input0 uglify log1]
    by (simp add: css_reusing)
  ultimately show ?thesis
    by blast
qed

section \<open>Running the model on concrete stylesheets\<close>

lemma not_array_index: "\<not> is_digit c \<Longrightarrow> \<not> is_array_index (c # s)"
  by (simp add: is_array_index_def)

lemma Object_keys_plain:
  "list_all (\<lambda>k. \<not> is_array_index k) (map fst t) \<Longrightarrow> Object_keys t = map fst t"
  by (simp add: Object_keys_def list_all_iff filter_empty_conv [THEN iffD2]
      filter_id_conv [THEN iffD2])

lemmas sample_defs =
  sample_decl_def sample_raw_rule_def sample_sheets_def sample_parse_def sample_class_def
  sample_tag_def sample_pseudo_def sample_selectors_def sample_selectorParse_def
  sample_encoder_def sample_uglifier_def sample_stringify_def sample_selector_def

lemmas parser_defs =
  cssParser_stripping_def cssParser_keeping_def cssParser_with_def parse_rule_selectors_def
  recursivelyRemovePosition_raw_rule_def recursivelyRemovePosition_declaration_def
  throwError_def

lemmas engine_defs =
  atomize_def atomize_rule_def atomize_declaration_def encoded_name_def pseudo_component_def
  handleNonClasses_def is_non_class_def recursivelyRemovePosition_rule_def
  recursivelyRemovePosition_declaration_def recursivelyRemovePosition_newRules_def
  recursivelyRemovePosition_out_rule_def removeIdenticalProperties_def
  removeIdenticalProperties_at_def output_rules_def Object_keys_plain not_array_index
  is_digit_def split0_def obj_get_def obj_set_def Object_prototype_names_def property_key_def
  sample_toUpperCase_def
  sample_toUpperCase_char_def new_Set_def Set_add_def List.map_filter_def

lemmas uglify_defs =
  uglify_pass_def uglify_key_def pseudo_suffix_def startsWith_def set_first_selector_def
  rename_in_classMap_def

lemmas css_defs =
  css_def options_or_empty_def input_or_empty_def empty_result_def throwError_def Let_def


text \<open>
  The stylesheet \<open>.a{color:red}.a:hover{color:blue}div{margin:0}\<close>, parsed by the wrapper
  that keeps the positions: the tree that the first call leaves behind is not the tree as
  parsed, and a call on it returns what the first call returned.
\<close>

theorem css_deterministic_witness:
  "css (cssParser_keeping sample_parse sample_selectorParse) sample_encoder sample_toUpperCase
       sample_uglifier sample_stringify None
       (Some ''.a{color:red}.a:hover{color:blue}div{margin:0}'') False [] =
     (Inr \<lparr>res_classMap =
             [(''.a'', [''.rp__color__--COLONred'', ''.rp__color__--COLONblue___-HOVER''])],
           res_output =
             ''.rp__color__--COLONred{color:red;}.rp__color__--COLONblue___-HOVER:hover{color:blue;}div{margin:0;}''\<rparr>,
      []) \<and>
   css (cssParser_reusing (cssParser_keeping sample_parse sample_selectorParse) sample_encoder
          sample_toUpperCase)
       sample_encoder sample_toUpperCase sample_uglifier sample_stringify None
       (Some ''.a{color:red}.a:hover{color:blue}div{margin:0}'') False [] =
     (Inr \<lparr>res_classMap =
             [(''.a'', [''.rp__color__--COLONred'', ''.rp__color__--COLONblue___-HOVER''])],
           res_output =
             ''.rp__color__--COLONred{color:red;}.rp__color__--COLONblue___-HOVER:hover{color:blue;}div{margin:0;}''\<rparr>,
      []) \<and>
   cssParser_reusing (cssParser_keeping sample_parse sample_selectorParse) sample_encoder
       sample_toUpperCase \<lparr>verbose = False\<rparr> ''.a{color:red}.a:hover{color:blue}div{margin:0}''
     \<noteq> cssParser_keeping sample_parse sample_selectorParse \<lparr>verbose = False\<rparr>
         ''.a{color:red}.a:hover{color:blue}div{margin:0}''"
proof -
  let ?P = "cssParser_keeping sample_parse sample_selectorParse"
  let ?input = "Some ''.a{color:red}.a:hover{color:blue}div{margin:0}''"
  let ?res = "Inr \<lparr>res_classMap =
             [(''.a'', [''.rp__color__--COLONred'', ''.rp__color__--COLONblue___-HOVER''])],
           res_output =
             ''.rp__color__--COLONred{color:red;}.rp__color__--COLONblue___-HOVER:hover{color:blue;}div{margin:0;}''\<rparr>"
  have first: "css ?P sample_encoder sample_toUpperCase sample_uglifier sample_stringify None
      ?input False [] = (?res, [])"
    by (simp add: css_defs parser_defs sample_defs engine_defs)
  obtain r3 log3 where third: "css (cssParser_reusing ?P sample_encoder sample_toUpperCase)
      sample_encoder sample_toUpperCase sample_uglifier sample_stringify None ?input False []
      = (r3, log3)"
    by (cases "css (cssParser_reusing ?P sample_encoder sample_toUpperCase)
      sample_encoder sample_toUpperCase sample_uglifier sample_stringify None ?input False []")
  from css_deterministic [OF first first third]
  have "r3 = ?res" and "log3 = []"
    by auto
  with third have again: "css (cssParser_reusing ?P sample_encoder sample_toUpperCase)
      sample_encoder sample_toUpperCase sample_uglifier sample_stringify None ?input False []
      = (?res, [])"
    by simp
  have changed: "cssParser_reusing ?P sample_encoder sample_toUpperCase \<lparr>verbose = False\<rparr>
       ''.a{color:red}.a:hover{color:blue}div{margin:0}''
     \<noteq> ?P \<lparr>verbose = False\<rparr> ''.a{color:red}.a:hover{color:blue}div{margin:0}''"
    by (simp add: cssParser_reusing_def tree_after_def parser_defs sample_defs engine_defs)
  from first again changed show ?thesis
    by (intro conjI)
qed

theorem css_parser_versions_agree_witness:
  "css (cssParser_stripping sample_parse sample_selectorParse) sample_encoder sample_toUpperCase sample_uglifier
       sample_stringify None (Some ''.a{color:red}.b{color:red}'') False [] =
     (Inr \<lparr>res_classMap =
             [(''.a'', [''.rp__color__--COLONred'']), (''.b'', [''.rp__color__--COLONred''])],
           res_output = ''.rp__color__--COLONred{color:red;}''\<rparr>, [])"
proof -
  have "css (cssParser_keeping sample_parse sample_selectorParse) sample_encoder sample_toUpperCase sample_uglifier
       sample_stringify None (Some ''.a{color:red}.b{color:red}'') False [] =
     (Inr \<lparr>res_classMap =
             [(''.a'', [''.rp__color__--COLONred'']), (''.b'', [''.rp__color__--COLONred''])],
           res_output = ''.rp__color__--COLONred{color:red;}''\<rparr>, [])"
    by (simp add: css_defs parser_defs sample_defs engine_defs)
  then show ?thesis
    by (simp only: css_parser_versions_agree)
qed

section \<open>Loops\<close>

lemma forEach_append:
  "forEach f (xs @ ys) s = (case forEach f xs s of Inl e \<Rightarrow> Inl e | Inr s' \<Rightarrow> forEach f ys s')"
  by (induction xs arbitrary: s) (simp_all split: sum.splits)

lemma forEach_preserves:
  assumes "forEach f xs s = Inr s'" and "I s"
    and "\<And>x s s'. x \<in> set xs \<Longrightarrow> I s \<Longrightarrow> f x s = Inr s' \<Longrightarrow> I s'"
  shows "I s'"
  using assms
proof (induction xs arbitrary: s)
  case Nil
  then show ?case by simp
next
  case (Cons x xs)
  from Cons.prems(1) obtain s1 where s1: "f x s = Inr s1" and rest: "forEach f xs s1 = Inr s'"
    by (auto split: sum.splits)
  have "I s1"
    using Cons.prems(2) s1 Cons.prems(3) [of x s s1] by simp
  then show ?case
    using Cons.IH [OF rest] Cons.prems(3) by (metis list.set_intros(2))
qed

lemma forEach_total:
  assumes "I s"
    and "\<And>x s. x \<in> set xs \<Longrightarrow> I s \<Longrightarrow> \<exists>s'. f x s = Inr s' \<and> I s'"
  shows "\<exists>s'. forEach f xs s = Inr s' \<and> I s'"
  using assms
proof (induction xs arbitrary: s)
  case Nil
  then show ?case by simp
next
  case (Cons x xs)
  from Cons.prems obtain s1 where s1: "f x s = Inr s1" "I s1"
    by (meson list.set_intros(1))
  moreover have "\<exists>s'. forEach f xs s1 = Inr s' \<and> I s'"
    using Cons.IH [of s1] s1(2) Cons.prems(2) by (metis list.set_intros(2))
  ultimately show ?case
    by simp
qed

lemma forEach_split:
  assumes "forEach f xs s = Inr s'" and "x \<in> set xs"
  shows "\<exists>ys zs s1 s2. xs = ys @ x # zs \<and> forEach f ys s = Inr s1 \<and> f x s1 = Inr s2 \<and>
           forEach f zs s2 = Inr s'"
proof -
  from assms(2) obtain ys zs where xs: "xs = ys @ x # zs"
    by (meson split_list)
  with assms(1) obtain s1 where s1: "forEach f ys s = Inr s1" and r: "forEach f (x # zs) s1 = Inr s'"
    by (auto simp: forEach_append split: sum.splits)
  from r obtain s2 where "f x s1 = Inr s2" "forEach f zs s2 = Inr s'"
    by (auto split: sum.splits)
  with xs s1 show ?thesis
    by blast
qed

section \<open>The class map during atomization\<close>

lemma colon_notin_split0: "CHR '':'' \<notin> set (split0 s)"
proof -
  have "\<exists>p ps. split CHR '':'' s = p # ps \<and> CHR '':'' \<notin> set p"
    by (induction s) (auto split: list.splits)
  then show ?thesis
    by (auto simp: split0_def)
qed

lemma split0_no_colon: "CHR '':'' \<notin> set s \<Longrightarrow> split0 s = s"
proof -
  have "CHR '':'' \<notin> set s \<Longrightarrow> split CHR '':'' s = [s]"
    by (induction s) auto
  then show "CHR '':'' \<notin> set s \<Longrightarrow> split0 s = s"
    by (simp add: split0_def)
qed

lemma split0_append_colon: "CHR '':'' \<notin> set s \<Longrightarrow> split0 (s @ CHR '':'' # t) = s"
proof -
  have "CHR '':'' \<notin> set s \<Longrightarrow> \<exists>ps. split CHR '':'' (s @ CHR '':'' # t) = s # ps"
    by (induction s) auto
  then show "CHR '':'' \<notin> set s \<Longrightarrow> split0 (s @ CHR '':'' # t) = s"
    by (auto simp: split0_def)
qed

lemma split_first: "\<exists>ps. split c s = takeWhile (\<lambda>x. x \<noteq> c) s # ps"
  by (induction s) (auto split: list.splits)

lemma before_colon_split0 [simp]: "before_colon s = split0 s"
  using split_first [of "CHR '':''" s] by (auto simp: before_colon_def split0_def)

lemma split_append: "c \<notin> set p \<Longrightarrow> split c (p @ c # rest) = p # split c rest"
  by (induction p) auto

lemma join_split: "join [c] (split c s) = s"
proof (induction s)
  case Nil
  then show ?case by simp
next
  case (Cons x xs)
  obtain p ps where sp: "split c xs = p # ps"
    using split_first [of c xs] by blast
  with Cons show ?case
    by (cases ps) auto
qed

lemma from_colon_pseudo_suffix [simp]: "from_colon k = pseudo_suffix k"
proof (cases "CHR '':'' \<in> set k")
  case True
  then obtain p rest where k: "k = p @ CHR '':'' # rest" and p: "CHR '':'' \<notin> set p"
    by (meson split_list_first)
  have "from_colon k = CHR '':'' # rest"
    using p by (auto simp: from_colon_def k dropWhile_append3)
  moreover have "pseudo_suffix k = CHR '':'' # join '':'' (split CHR '':'' rest)"
    using p by (simp add: pseudo_suffix_def k split_append)
  ultimately show ?thesis
    by (simp add: join_split)
next
  case False
  then show ?thesis
    by (auto simp: from_colon_def pseudo_suffix_def dropWhile_eq_Nil_conv)
qed

lemma classMap_entries_update:
  "classMap_entries (AList.update k v cm) k' = (if k' = k then v else classMap_entries cm k')"
  by (simp add: classMap_entries_def update_conv')

lemma classMap_entries_mem:
  "v \<in> set (classMap_entries cm k) \<longleftrightarrow> (\<exists>xs. map_of cm k = Some xs \<and> v \<in> set xs)"
  by (cases "map_of cm k") (auto simp: classMap_entries_def)

lemma updateClassMap_Cons:
  "updateClassMap cm ((c # cs) # sels) n =
     (case comp_original c of
        None \<Rightarrow> Inl TypeError
      | Some text \<Rightarrow>
          if obj_get cm (split0 text) = Inherited then Inl TypeError
          else updateClassMap
                 (AList.update (split0 text) (classMap_entries cm (split0 text) @ [split0 n]) cm)
                 sels n)"
  by (auto simp: obj_get_def classMap_entries_def Let_def split: option.splits)

lemma updateClassMap_Inr:
  assumes "updateClassMap cm (sel # sels) n = Inr cm'"
  obtains c cs t where "sel = c # cs" "comp_original c = Some t"
    "obj_get cm (split0 t) \<noteq> Inherited"
    "updateClassMap
       (AList.update (split0 t) (classMap_entries cm (split0 t) @ [split0 n]) cm)
       sels n = Inr cm'"
proof (cases sel)
  case Nil
  with assms show ?thesis by simp
next
  case (Cons c cs)
  with assms obtain t where "comp_original c = Some t"
    "obj_get cm (split0 t) \<noteq> Inherited"
    "updateClassMap
       (AList.update (split0 t) (classMap_entries cm (split0 t) @ [split0 n]) cm)
       sels n = Inr cm'"
    by (auto simp only: updateClassMap_Cons split: option.splits if_splits)
  with Cons show ?thesis
    by (rule that)
qed

lemma obj_get_not_inherited:
  "k \<notin> set Object_prototype_names \<Longrightarrow> obj_get cm k \<noteq> Inherited"
  by (simp add: obj_get_def split: option.splits)

lemma updateClassMap_total:
  "list_all well_formed_selector sels \<Longrightarrow> list_all (\<lambda>sel. \<not> names_inherited_member sel) sels
     \<Longrightarrow> \<exists>cm'. updateClassMap cm sels n = Inr cm'"
proof (induction sels arbitrary: cm)
  case Nil
  then show ?case by simp
next
  case (Cons sel sels)
  from Cons.prems obtain c cs t where sel: "sel = c # cs" and t: "comp_original c = Some t"
    by (cases sel) (auto simp: well_formed_selector_def)
  from Cons.prems(2) sel t have "split0 t \<notin> set Object_prototype_names"
    by (simp add: names_inherited_member_def)
  then have "obj_get cm (split0 t) \<noteq> Inherited"
    by (rule obj_get_not_inherited)
  moreover have "\<exists>cm'. updateClassMap
       (AList.update (split0 t) (classMap_entries cm (split0 t) @ [split0 n]) cm)
       sels n = Inr cm'"
    using Cons.IH Cons.prems by simp
  ultimately show ?case
    by (simp only: sel updateClassMap_Cons t option.case if_False)
qed

lemma updateClassMap_mono:
  "updateClassMap cm sels n = Inr cm' \<Longrightarrow> set (classMap_entries cm k) \<subseteq> set (classMap_entries cm' k)"
proof (induction sels arbitrary: cm)
  case Nil
  then show ?case by simp
next
  case (Cons sel sels)
  from Cons.prems obtain c cs t where
    rest: "updateClassMap
       (AList.update (split0 t) (classMap_entries cm (split0 t) @ [split0 n]) cm)
       sels n = Inr cm'"
    by (rule updateClassMap_Inr)
  from Cons.IH [OF rest] show ?case
    by (auto simp: classMap_entries_update split: if_splits)
qed

lemma updateClassMap_mem:
  "updateClassMap cm sels n = Inr cm' \<Longrightarrow> c # cs \<in> set sels \<Longrightarrow> comp_original c = Some t
     \<Longrightarrow> split0 n \<in> set (classMap_entries cm' (split0 t))"
proof (induction sels arbitrary: cm)
  case Nil
  then show ?case by simp
next
  case (Cons sel sels)
  from Cons.prems(1) obtain c0 cs0 t0 where sel: "sel = c0 # cs0"
    and t0: "comp_original c0 = Some t0"
    and rest: "updateClassMap
       (AList.update (split0 t0) (classMap_entries cm (split0 t0) @ [split0 n]) cm)
       sels n = Inr cm'"
    by (rule updateClassMap_Inr)
  show ?case
  proof (cases "c # cs = sel")
    case True
    with sel t0 Cons.prems(3) have "t0 = t"
      by simp
    with updateClassMap_mono [OF rest, of "split0 t"] show ?thesis
      by (auto simp: classMap_entries_update)
  next
    case False
    with Cons.prems(2) have "c # cs \<in> set sels"
      by simp
    from Cons.IH [OF rest this Cons.prems(3)] show ?thesis .
  qed
qed

lemma updateClassMap_values:
  "updateClassMap cm sels n = Inr cm' \<Longrightarrow> v \<in> set (classMap_entries cm' k)
     \<Longrightarrow> v \<in> set (classMap_entries cm k) \<or> v = split0 n"
proof (induction sels arbitrary: cm)
  case Nil
  then show ?case by simp
next
  case (Cons sel sels)
  from Cons.prems(1) obtain c cs t where
    rest: "updateClassMap
       (AList.update (split0 t) (classMap_entries cm (split0 t) @ [split0 n]) cm)
       sels n = Inr cm'"
    by (rule updateClassMap_Inr)
  from Cons.IH [OF rest Cons.prems(2)] show ?case
    by (auto simp: classMap_entries_update split: if_splits)
qed

section \<open>The new-rules table during atomization\<close>

lemma map_of_fold_update:
  "map_of (fold (\<lambda>(k, v). AList.update k v) ws t) k =
     (case map_of (rev ws) k of None \<Rightarrow> map_of t k | Some v \<Rightarrow> Some v)"
proof (induction ws arbitrary: t)
  case Nil
  then show ?case by simp
next
  case (Cons w ws)
  obtain k' v' where w: "w = (k', v')"
    by (cases w)
  show ?case
    by (simp add: Cons.IH w update_conv' map_add_def [symmetric] map_add_Some_iff
        split: option.splits)
       (auto simp: map_add_def split: option.splits)
qed

lemma distinct_fold_update:
  "distinct (map fst t) \<Longrightarrow> distinct (map fst (fold (\<lambda>(k, v). AList.update k v) ws t))"
  by (induction ws arbitrary: t) (auto simp: distinct_update)

lemma selectors_stripped [simp]:
  "rule_selectors (recursivelyRemovePosition_rule r) = rule_selectors r"
  by (simp add: recursivelyRemovePosition_rule_def)

lemma pseudo_component_stripped [simp]:
  "pseudo_component (recursivelyRemovePosition_rule r) = pseudo_component r"
  by (simp add: pseudo_component_def)

lemma first_component_stripped [simp]:
  "first_component (recursivelyRemovePosition_rule r) = first_component r"
  by (simp add: first_component_def)

lemma fold_obj_set:
  "fold (\<lambda>(k, v). obj_set k v) ws t =
   fold (\<lambda>(k, v). AList.update k v) (filter (\<lambda>w. fst w \<noteq> ''__proto__'') ws) t"
  by (induction ws arbitrary: t) (auto simp: obj_set_def)

lemma map_of_filter_key: "k \<noteq> p \<Longrightarrow> map_of (filter (\<lambda>w. fst w \<noteq> p) xs) k = map_of xs k"
  by (induction xs) auto

lemma map_of_fold_obj_set:
  assumes "k \<noteq> ''__proto__''"
  shows "map_of (fold (\<lambda>(k, v). obj_set k v) ws t) k =
     (case map_of (rev ws) k of None \<Rightarrow> map_of t k | Some v \<Rightarrow> Some v)"
  using assms by (simp add: fold_obj_set map_of_fold_update rev_filter map_of_filter_key)

lemma distinct_fold_obj_set:
  "distinct (map fst t) \<Longrightarrow> distinct (map fst (fold (\<lambda>(k, v). obj_set k v) ws t))"
  by (simp add: fold_obj_set distinct_fold_update)

lemma keys_fold_update:
  "fst ` set (fold (\<lambda>(k, v). AList.update k v) ws t) = fst ` set t \<union> fst ` set ws"
proof (induction ws arbitrary: t)
  case Nil
  then show ?case by simp
next
  case (Cons w ws)
  obtain k v where w: "w = (k, v)"
    by (cases w)
  have "fst ` set (AList.update k v t) = insert k (fst ` set t)"
    by (induction t) auto
  with Cons.IH [of "AList.update k v t"] show ?case
    by (simp add: w)
qed

lemma keys_fold_obj_set:
  "fst ` set (fold (\<lambda>(k, v). obj_set k v) ws t) =
   fst ` set t \<union> (fst ` set ws - {''__proto__''})"
proof -
  have "fst ` set (filter (\<lambda>w. fst w \<noteq> ''__proto__'') ws) = fst ` set ws - {''__proto__''}"
    by (induction ws) auto
  then show ?thesis
    by (simp only: fold_obj_set keys_fold_update)
qed

lemma atomize_declaration_Inr:
  assumes "atomize_declaration E toUpperCase opts r d (cm, nr) = Inr (cm', nr')"
  shows "\<exists>key. encoded_name E toUpperCase opts r d = Inr key \<and>
           updateClassMap cm (rule_selectors r) key = Inr cm' \<and>
           nr' = obj_set key \<lparr>out_selectors = [[Some key]], out_declarations = [d]\<rparr> nr"
  using assms by (auto simp: atomize_declaration_def split: sum.splits)

lemma atomize_declarations_table:
  "forEach (atomize_declaration E toUpperCase opts r) ds (cm, nr) = Inr (cm', nr') \<Longrightarrow>
   nr' = fold (\<lambda>(k, v). obj_set k v)
           (List.map_filter
              (\<lambda>d. case encoded_name E toUpperCase opts r d of
                     Inl e \<Rightarrow> None
                   | Inr key \<Rightarrow> Some (key, \<lparr>out_selectors = [[Some key]], out_declarations = [d]\<rparr>))
              ds)
           nr"
proof (induction ds arbitrary: cm nr)
  case Nil
  then show ?case by (simp add: List.map_filter_simps)
next
  case (Cons d ds)
  from Cons.prems obtain cm1 nr1 where
    step: "atomize_declaration E toUpperCase opts r d (cm, nr) = Inr (cm1, nr1)" and
    rest: "forEach (atomize_declaration E toUpperCase opts r) ds (cm1, nr1) = Inr (cm', nr')"
    by (auto split: sum.splits)
  from atomize_declaration_Inr [OF step] obtain key where
    "encoded_name E toUpperCase opts r d = Inr key"
    "nr1 = obj_set key \<lparr>out_selectors = [[Some key]], out_declarations = [d]\<rparr> nr"
    by blast
  with Cons.IH [OF rest] show ?case
    by (simp add: List.map_filter_simps)
qed

lemma atomize_rule_cases:
  assumes "atomize_rule E toUpperCase opts r (cm, nr) = Inr (cm', nr')"
  obtains (non_class) c where "first_component r = Some c" "is_non_class c" "cm' = cm"
      "nr' = obj_set (property_key (comp_original c))
               \<lparr>out_selectors = [[comp_original c]],
                out_declarations = rule_declarations (recursivelyRemovePosition_rule r)\<rparr> nr"
    | (atomized) c where "first_component r = Some c" "\<not> is_non_class c"
      "forEach (atomize_declaration E toUpperCase opts (recursivelyRemovePosition_rule r))
         (rule_declarations (recursivelyRemovePosition_rule r)) (cm, nr) = Inr (cm', nr')"
proof -
  from assms obtain c cs sels where sel: "rule_selectors r = (c # cs) # sels"
    by (auto simp: atomize_rule_def Let_def split: list.splits)
  then have fc: "first_component r = Some c"
    by (simp add: first_component_def)
  show thesis
  proof (cases "is_non_class c")
    case True
    with assms sel have "cm' = cm" and
      "nr' = obj_set (property_key (comp_original c))
               \<lparr>out_selectors = [[comp_original c]],
                out_declarations = rule_declarations (recursivelyRemovePosition_rule r)\<rparr> nr"
      by (auto simp: atomize_rule_def Let_def handleNonClasses_def split: sum.splits)
    with fc True show thesis
      by (rule non_class)
  next
    case False
    with assms sel have
      "forEach (atomize_declaration E toUpperCase opts (recursivelyRemovePosition_rule r))
         (rule_declarations (recursivelyRemovePosition_rule r)) (cm, nr) = Inr (cm', nr')"
      by (simp add: atomize_rule_def Let_def)
    with fc False show thesis
      by (rule atomized)
  qed
qed

lemma atomize_rule_table:
  assumes "atomize_rule E toUpperCase opts r (cm, nr) = Inr (cm', nr')"
  shows "nr' = fold (\<lambda>(k, v). obj_set k v) (rule_writes E toUpperCase opts r) nr"
  using assms
proof (cases rule: atomize_rule_cases)
  case (non_class c)
  then show ?thesis
    by (simp add: rule_writes_def Let_def)
next
  case (atomized c)
  then show ?thesis
    using atomize_declarations_table [OF atomized(3)] by (simp add: rule_writes_def Let_def)
qed

lemma atomize_rules_table:
  "forEach (atomize_rule E toUpperCase opts) rs (cm, nr) = Inr (cm', nr') \<Longrightarrow>
   nr' = fold (\<lambda>(k, v). obj_set k v) (concat (map (rule_writes E toUpperCase opts) rs)) nr"
proof (induction rs arbitrary: cm nr)
  case Nil
  then show ?case by simp
next
  case (Cons r rs)
  from Cons.prems obtain cm1 nr1 where
    step: "atomize_rule E toUpperCase opts r (cm, nr) = Inr (cm1, nr1)" and
    rest: "forEach (atomize_rule E toUpperCase opts) rs (cm1, nr1) = Inr (cm', nr')"
    by (auto split: sum.splits)
  show ?case
    using Cons.IH [OF rest] atomize_rule_table [OF step] by simp
qed

section \<open>The class map after atomization\<close>

lemma atomize_declaration_mono:
  assumes "atomize_declaration E toUpperCase opts r d st = Inr st'"
  shows "set (classMap_entries (fst st) k) \<subseteq> set (classMap_entries (fst st') k)"
proof -
  obtain cm nr cm' nr' where st: "st = (cm, nr)" "st' = (cm', nr')"
    by (cases st, cases st')
  from atomize_declaration_Inr [OF assms [unfolded st]] updateClassMap_mono show ?thesis
    unfolding st by fastforce
qed

lemma atomize_declarations_mono:
  assumes "forEach (atomize_declaration E toUpperCase opts r) ds st = Inr st'"
  shows "set (classMap_entries (fst st) k) \<subseteq> set (classMap_entries (fst st') k)"
  using assms
proof (induction ds arbitrary: st)
  case Nil
  then show ?case by simp
next
  case (Cons d ds)
  from Cons.prems obtain st1 where
    "atomize_declaration E toUpperCase opts r d st = Inr st1" "forEach (atomize_declaration E toUpperCase opts r) ds st1 = Inr st'"
    by (auto split: sum.splits)
  then show ?case
    using atomize_declaration_mono Cons.IH by blast
qed

lemma atomize_declarations_mem:
  assumes "forEach (atomize_declaration E toUpperCase opts r) ds st = Inr st'"
    and "d \<in> set ds" and "c # cs \<in> set (rule_selectors r)" and "comp_original c = Some t"
  shows "\<exists>key. encoded_name E toUpperCase opts r d = Inr key \<and> split0 key \<in> set (classMap_entries (fst st') (split0 t))"
proof -
  from forEach_split [OF assms(1,2)] obtain s1 s2 zs where
    step: "atomize_declaration E toUpperCase opts r d s1 = Inr s2" and
    rest: "forEach (atomize_declaration E toUpperCase opts r) zs s2 = Inr st'"
    by blast
  obtain cm1 nr1 cm2 nr2 where s: "s1 = (cm1, nr1)" "s2 = (cm2, nr2)"
    by (cases s1, cases s2)
  from atomize_declaration_Inr [OF step [unfolded s]] obtain key where
    key: "encoded_name E toUpperCase opts r d = Inr key" and
    upd: "updateClassMap cm1 (rule_selectors r) key = Inr cm2"
    by blast
  have "split0 key \<in> set (classMap_entries cm2 (split0 t))"
    using updateClassMap_mem [OF upd assms(3,4)] .
  then have "split0 key \<in> set (classMap_entries (fst st') (split0 t))"
    using atomize_declarations_mono [OF rest, of "split0 t"] s by auto
  with key show ?thesis
    by blast
qed

lemma atomize_declarations_values:
  assumes "forEach (atomize_declaration E toUpperCase opts r) ds st = Inr st'"
    and "v \<in> set (classMap_entries (fst st') k)"
  shows "v \<in> set (classMap_entries (fst st) k) \<or>
         (\<exists>d\<in>set ds. \<exists>key. encoded_name E toUpperCase opts r d = Inr key \<and> v = split0 key)"
  using assms
proof (induction ds arbitrary: st)
  case Nil
  then show ?case by simp
next
  case (Cons d ds)
  from Cons.prems obtain st1 where
    step: "atomize_declaration E toUpperCase opts r d st = Inr st1" and
    rest: "forEach (atomize_declaration E toUpperCase opts r) ds st1 = Inr st'"
    by (auto split: sum.splits)
  obtain cm nr cm1 nr1 where s: "st = (cm, nr)" "st1 = (cm1, nr1)"
    by (cases st, cases st1)
  from atomize_declaration_Inr [OF step [unfolded s]] obtain key where
    key: "encoded_name E toUpperCase opts r d = Inr key" and
    upd: "updateClassMap cm (rule_selectors r) key = Inr cm1"
    by blast
  from Cons.IH [OF rest Cons.prems(2)] show ?case
  proof
    assume "v \<in> set (classMap_entries (fst st1) k)"
    then have "v \<in> set (classMap_entries cm k) \<or> v = split0 key"
      using updateClassMap_values [OF upd] s by simp
    with key s show ?thesis
      by auto
  next
    assume "\<exists>d\<in>set ds. \<exists>key. encoded_name E toUpperCase opts r d = Inr key \<and> v = split0 key"
    then show ?thesis
      by auto
  qed
qed

lemma atomize_rule_mono:
  assumes "atomize_rule E toUpperCase opts r st = Inr st'"
  shows "set (classMap_entries (fst st) k) \<subseteq> set (classMap_entries (fst st') k)"
proof -
  obtain cm nr cm' nr' where st: "st = (cm, nr)" "st' = (cm', nr')"
    by (cases st, cases st')
  from assms [unfolded st] show ?thesis
  proof (cases rule: atomize_rule_cases)
    case (non_class c)
    then show ?thesis by (simp add: st)
  next
    case (atomized c)
    from atomize_declarations_mono [OF atomized(3)] show ?thesis
      by (simp add: st)
  qed
qed

lemma atomize_rules_mono:
  assumes "forEach (atomize_rule E toUpperCase opts) rs st = Inr st'"
  shows "set (classMap_entries (fst st) k) \<subseteq> set (classMap_entries (fst st') k)"
  using assms
proof (induction rs arbitrary: st)
  case Nil
  then show ?case by simp
next
  case (Cons r rs)
  from Cons.prems obtain st1 where
    "atomize_rule E toUpperCase opts r st = Inr st1" "forEach (atomize_rule E toUpperCase opts) rs st1 = Inr st'"
    by (auto split: sum.splits)
  then show ?case
    using atomize_rule_mono Cons.IH by blast
qed

text \<open>
  A rule that is atomized leaves, for each of its declarations and each of its selectors,
  the name of the declaration up to its first colon in the class map, under the selector
  text up to its first colon.
\<close>

lemma atomize_rules_mem:
  assumes run: "forEach (atomize_rule E toUpperCase opts) rs st = Inr st'"
    and r: "r \<in> set rs" "first_component r = Some c0" "\<not> is_non_class c0"
    and d: "d \<in> set (rule_declarations (recursivelyRemovePosition_rule r))"
    and sel: "c # cs \<in> set (rule_selectors r)" "comp_original c = Some t"
  shows "\<exists>key. encoded_name E toUpperCase opts (recursivelyRemovePosition_rule r) d = Inr key \<and>
           split0 key \<in> set (classMap_entries (fst st') (split0 t))"
proof -
  from forEach_split [OF run r(1)] obtain s1 s2 zs where
    step: "atomize_rule E toUpperCase opts r s1 = Inr s2" and
    rest: "forEach (atomize_rule E toUpperCase opts) zs s2 = Inr st'"
    by blast
  obtain cm1 nr1 cm2 nr2 where s: "s1 = (cm1, nr1)" "s2 = (cm2, nr2)"
    by (cases s1, cases s2)
  from step [unfolded s] obtain key where
    key: "encoded_name E toUpperCase opts (recursivelyRemovePosition_rule r) d = Inr key" and
    mem: "split0 key \<in> set (classMap_entries cm2 (split0 t))"
  proof (cases rule: atomize_rule_cases)
    case (non_class c)
    with r show ?thesis by simp
  next
    case (atomized c)
    from atomize_declarations_mem [OF atomized(3) d] sel that show ?thesis
      by auto
  qed
  from mem atomize_rules_mono [OF rest, of "split0 t"] s
  have "split0 key \<in> set (classMap_entries (fst st') (split0 t))"
    by auto
  with key show ?thesis
    by blast
qed

text \<open>Every value of the class map is the name of some declaration up to its first colon.\<close>

lemma atomize_rules_values:
  assumes "forEach (atomize_rule E toUpperCase opts) rs st = Inr st'"
    and "v \<in> set (classMap_entries (fst st') k)"
  shows "v \<in> set (classMap_entries (fst st) k) \<or>
         (\<exists>r\<in>set rs. \<exists>d\<in>set (rule_declarations (recursivelyRemovePosition_rule r)). \<exists>key.
            encoded_name E toUpperCase opts (recursivelyRemovePosition_rule r) d = Inr key \<and> v = split0 key)"
  using assms
proof (induction rs arbitrary: st)
  case Nil
  then show ?case by simp
next
  case (Cons r rs)
  from Cons.prems obtain st1 where
    step: "atomize_rule E toUpperCase opts r st = Inr st1" and
    rest: "forEach (atomize_rule E toUpperCase opts) rs st1 = Inr st'"
    by (auto split: sum.splits)
  obtain cm nr cm1 nr1 where s: "st = (cm, nr)" "st1 = (cm1, nr1)"
    by (cases st, cases st1)
  from Cons.IH [OF rest Cons.prems(2)] show ?case
  proof
    assume v: "v \<in> set (classMap_entries (fst st1) k)"
    from step [unfolded s] show ?thesis
    proof (cases rule: atomize_rule_cases)
      case (non_class c)
      with v s show ?thesis by simp
    next
      case (atomized c)
      from atomize_declarations_values [OF atomized(3)] v s show ?thesis
        by fastforce
    qed
  next
    assume "\<exists>r\<in>set rs. \<exists>d\<in>set (rule_declarations (recursivelyRemovePosition_rule r)). \<exists>key.
            encoded_name E toUpperCase opts (recursivelyRemovePosition_rule r) d = Inr key \<and> v = split0 key"
    then show ?thesis
      by auto
  qed
qed

section \<open>Atomization of a well-formed stylesheet returns\<close>

lemma encoded_name_total:
  "well_formed_rule r \<Longrightarrow> \<exists>key. encoded_name E toUpperCase opts r d = Inr key"
  by (auto simp: well_formed_rule_def encoded_name_def Let_def split: option.splits)

lemma atomize_declaration_total:
  assumes "well_formed_rule r" and "first_component r = Some c" and "\<not> is_non_class c"
  shows "\<exists>st'. atomize_declaration E toUpperCase opts r d st = Inr st'"
proof -
  obtain cm nr where st: "st = (cm, nr)"
    by (cases st)
  from assms(1) encoded_name_total obtain key where "encoded_name E toUpperCase opts r d = Inr key"
    by blast
  moreover from assms obtain cm' where "updateClassMap cm (rule_selectors r) key = Inr cm'"
    using updateClassMap_total [of "rule_selectors r" cm key] unfolding well_formed_rule_def
    by auto
  ultimately show ?thesis
    by (simp add: atomize_declaration_def st)
qed

lemma well_formed_stripped [simp]:
  "well_formed_rule (recursivelyRemovePosition_rule r) = well_formed_rule r"
  by (simp add: well_formed_rule_def cong: option.case_cong)

lemma atomize_rule_total:
  assumes "well_formed_rule r"
  shows "\<exists>st'. atomize_rule E toUpperCase opts r st = Inr st'"
proof -
  from assms obtain c cs sels where sel: "rule_selectors r = (c # cs) # sels"
    by (auto simp: well_formed_rule_def well_formed_selector_def neq_Nil_conv split: list.splits)
  then have fc: "first_component (recursivelyRemovePosition_rule r) = Some c"
    by (simp add: first_component_def)
  show ?thesis
  proof (cases "is_non_class c")
    case True
    with sel show ?thesis
      by (cases st) (simp add: atomize_rule_def Let_def handleNonClasses_def)
  next
    case False
    have "\<exists>st'. forEach (atomize_declaration E toUpperCase opts (recursivelyRemovePosition_rule r))
            (rule_declarations (recursivelyRemovePosition_rule r)) st = Inr st' \<and> True"
    proof (rule forEach_total)
      show True ..
      fix d s
      from atomize_declaration_total [OF _ fc False, of E toUpperCase opts d s] assms
      show "\<exists>s'. atomize_declaration E toUpperCase opts (recursivelyRemovePosition_rule r) d s = Inr s' \<and> True"
        by simp
    qed
    with sel False show ?thesis
      by (simp add: atomize_rule_def Let_def)
  qed
qed

lemma atomize_rules_total:
  assumes "list_all well_formed_rule rs"
  shows "\<exists>st'. forEach (atomize_rule E toUpperCase opts) rs st = Inr st'"
  using forEach_total [where I = "\<lambda>s. True" and f = "atomize_rule E toUpperCase opts" and xs = rs and s = st]
    atomize_rule_total assms
  by (metis (full_types) list_all_iff)

section \<open>The rules handed to the serializer\<close>

lemma output_rules_map:
  "output_rules t = map (\<lambda>k. the (map_of t k)) (Object_keys t)"
proof -
  have "List.map_filter (map_of t) ks = map (\<lambda>k. the (map_of t k)) ks" if "set ks \<subseteq> fst ` set t" for ks
    using that
  proof (induction ks)
    case Nil
    then show ?case by (simp add: List.map_filter_simps)
  next
    case (Cons k ks)
    then obtain v where "map_of t k = Some v"
      by (metis list.set_intros(1) map_of_eq_None_iff not_Some_eq subsetD)
    with Cons show ?case
      by (simp add: List.map_filter_simps)
  qed
  then show ?thesis
    by (simp add: output_rules_def set_Object_keys)
qed

lemma mset_output_rules:
  assumes "distinct (map fst t)"
  shows "mset (output_rules t) = mset (map snd t)"
proof -
  have "mset (output_rules t) = image_mset (\<lambda>k. the (map_of t k)) (mset (Object_keys t))"
    by (simp add: output_rules_map)
  also have "\<dots> = image_mset (\<lambda>k. the (map_of t k)) (mset (map fst t))"
    by (simp only: mset_Object_keys)
  also have "\<dots> = mset (map snd t)"
    using assms by (rule image_mset_map_of)
  finally show ?thesis .
qed

lemma set_output_rules:
  assumes "distinct (map fst t)"
  shows "set (output_rules t) = {v. \<exists>k. map_of t k = Some v}"
proof -
  have "set (output_rules t) = snd ` set t"
    using mset_output_rules [OF assms] by (metis mset_eq_setD set_map)
  also have "\<dots> = {v. \<exists>k. map_of t k = Some v}"
    using assms by (force simp: image_iff)
  finally show ?thesis .
qed



section \<open>What the table holds\<close>

lemma set_update_subset: "set (AList.update k v al) \<subseteq> insert (k, v) (set al)"
  by (induction al) auto

lemma set_fold_update_subset:
  "set (fold (\<lambda>(k, v). AList.update k v) ws t) \<subseteq> set t \<union> set ws"
proof (induction ws arbitrary: t)
  case Nil
  then show ?case by simp
next
  case (Cons w ws)
  obtain k v where w: "w = (k, v)"
    by (cases w)
  show ?case
    using Cons.IH [of "AList.update k v t"] set_update_subset [of k v t] by (auto simp: w)
qed

lemma set_fold_obj_set_subset:
  "set (fold (\<lambda>(k, v). obj_set k v) ws t) \<subseteq> set t \<union> set ws"
  using set_fold_update_subset [of "filter (\<lambda>w. fst w \<noteq> ''__proto__'') ws" t]
  by (auto simp: fold_obj_set)

lemma rule_writes_cases:
  assumes "(k, v) \<in> set (rule_writes E toUpperCase opts r)"
  obtains (non_class) c where "first_component r = Some c" "is_non_class c"
      "k = property_key (comp_original c)"
      "v = \<lparr>out_selectors = [[comp_original c]],
            out_declarations = rule_declarations (recursivelyRemovePosition_rule r)\<rparr>"
    | (atomized) c d where "first_component r = Some c" "\<not> is_non_class c"
      "d \<in> set (rule_declarations (recursivelyRemovePosition_rule r))"
      "encoded_name E toUpperCase opts (recursivelyRemovePosition_rule r) d = Inr k"
      "v = \<lparr>out_selectors = [[Some k]], out_declarations = [d]\<rparr>"
proof -
  from assms obtain c where fc: "first_component r = Some c"
    by (cases "first_component r") (auto simp: rule_writes_def Let_def)
  show thesis
  proof (cases "is_non_class c")
    case True
    with assms fc show thesis
      by (intro non_class [of c]) (auto simp: rule_writes_def Let_def)
  next
    case False
    with assms fc obtain d where "d \<in> set (rule_declarations (recursivelyRemovePosition_rule r))"
      "encoded_name E toUpperCase opts (recursivelyRemovePosition_rule r) d = Inr k"
      "v = \<lparr>out_selectors = [[Some k]], out_declarations = [d]\<rparr>"
      by (auto simp: rule_writes_def Let_def List.map_filter_def split: sum.splits)
    with fc False show thesis
      by (rule atomized)
  qed
qed

lemma first_component_original:
  assumes "well_formed_rule r" and "first_component r = Some c"
  shows "\<exists>t. comp_original c = Some t"
  using assms
  by (auto simp: well_formed_rule_def well_formed_selector_def first_component_def
      split: list.splits)

lemma rule_writes_selectors:
  assumes "(k, v) \<in> set (rule_writes E toUpperCase opts r)" and "well_formed_rule r"
  shows "out_selectors v = [[Some k]]"
  using assms(1)
proof (cases rule: rule_writes_cases)
  case (non_class c)
  with first_component_original [OF assms(2)] show ?thesis
    by (auto simp: property_key_def)
next
  case (atomized c d)
  then show ?thesis by simp
qed

lemma rule_writes_stripped:
  assumes "(k, v) \<in> set (rule_writes E toUpperCase opts r)"
  shows "recursivelyRemovePosition_out_rule v = v"
  using assms
proof (cases rule: rule_writes_cases)
  case (non_class c)
  then show ?thesis
    by (simp add: recursivelyRemovePosition_out_rule_def recursivelyRemovePosition_rule_def
        recursivelyRemovePosition_declaration_def comp_def)
next
  case (atomized c d)
  then show ?thesis
    by (auto simp: recursivelyRemovePosition_out_rule_def recursivelyRemovePosition_rule_def
        recursivelyRemovePosition_declaration_def)
qed

section \<open>Atomization without uglification\<close>

lemma classMap_entries_removeIdenticalProperties:
  "classMap_entries (removeIdenticalProperties cm) k = remdups (classMap_entries cm k)"
  by (simp add: classMap_entries_def map_of_removeIdenticalProperties split: option.splits)

lemma css_atomized:
  assumes "cssParser (options_or_empty options0) (input_or_empty input0)
             = (Inr (Some (Rules rs)), reports)"
    and "atomize E toUpperCase U (options_or_empty options0) (Rules rs) uglify = Inr (cm, out)"
  shows "css cssParser E toUpperCase U S options0 input0 uglify log =
           (Inr \<lparr>res_classMap = cm, res_output = S out\<rparr>, log @ reports)"
  using assms by (simp add: css_def Let_def)

text \<open>The table that the loop over the rules builds.\<close>

lemma atomize_rules_table_facts:
  assumes run: "forEach (atomize_rule E toUpperCase opts) rs ([], []) = Inr (cm, nr)"
  shows "distinct (map fst nr)"
    and "k \<noteq> ''__proto__'' \<Longrightarrow>
           map_of nr k = map_of (rev (concat (map (rule_writes E toUpperCase opts) rs))) k"
    and "fst ` set nr = set (concat (map (rule_keys E toUpperCase opts) rs)) - {''__proto__''}"
    and "(k, v) \<in> set nr \<Longrightarrow> \<exists>r\<in>set rs. (k, v) \<in> set (rule_writes E toUpperCase opts r)"
proof -
  let ?W = "concat (map (rule_writes E toUpperCase opts) rs)"
  have nr: "nr = fold (\<lambda>(k, v). obj_set k v) ?W []"
    using atomize_rules_table [OF run] .
  show "distinct (map fst nr)"
    unfolding nr by (rule distinct_fold_obj_set) simp
  show "map_of nr k = map_of (rev ?W) k" if "k \<noteq> ''__proto__''"
    unfolding nr using that by (simp add: map_of_fold_obj_set split: option.splits)
  have "fst ` set ?W = set (concat (map (rule_keys E toUpperCase opts) rs))"
    by (simp add: rule_keys_def image_UN)
  then show "fst ` set nr = set (concat (map (rule_keys E toUpperCase opts) rs)) - {''__proto__''}"
    unfolding nr by (simp only: keys_fold_obj_set) simp
  show "\<exists>r\<in>set rs. (k, v) \<in> set (rule_writes E toUpperCase opts r)" if "(k, v) \<in> set nr"
    using that set_fold_obj_set_subset [of ?W "[]"] unfolding nr by auto
qed

lemma delete_absent: "k \<notin> fst ` set al \<Longrightarrow> AList.delete k al = al"
  by (induction al) auto

text \<open>Line 227 on a table without the keys \<open>hasOwnProperty\<close> and \<open>position\<close>.\<close>

lemma recursivelyRemovePosition_newRules_plain:
  assumes "''hasOwnProperty'' \<notin> fst ` set nr" and "''position'' \<notin> fst ` set nr"
    and "\<And>k v. (k, v) \<in> set nr \<Longrightarrow> recursivelyRemovePosition_out_rule v = v"
  shows "recursivelyRemovePosition_newRules nr = Inr nr"
proof -
  have "map (\<lambda>(key, r). (key, recursivelyRemovePosition_out_rule r)) nr = nr"
  proof (rule map_idI)
    fix e
    assume e: "e \<in> set nr"
    obtain k v where kv: "e = (k, v)"
      by (cases e)
    from assms(3) e kv have "recursivelyRemovePosition_out_rule v = v"
      by blast
    then show "(case e of (key, r) \<Rightarrow> (key, recursivelyRemovePosition_out_rule r)) = e"
      by (simp add: kv)
  qed
  with assms(1,2) show ?thesis
    by (simp add: recursivelyRemovePosition_newRules_def delete_absent)
qed

text \<open>Line 227 in general: what is left of the table when it does not throw.\<close>

lemma recursivelyRemovePosition_newRules_Inr:
  assumes "recursivelyRemovePosition_newRules nr0 = Inr nr"
  shows "map fst nr = filter (\<lambda>k. k \<noteq> ''position'') (map fst nr0)"
    and "map_of nr k =
           (if k = ''position'' then None
            else map_option recursivelyRemovePosition_out_rule (map_of nr0 k))"
proof -
  let ?strip = "\<lambda>(key, r). (key, recursivelyRemovePosition_out_rule r)"
  from assms have nr: "nr = map ?strip (AList.delete ''position'' nr0)"
    by (simp add: recursivelyRemovePosition_newRules_def split: if_splits)
  have keys: "map fst (map ?strip al) = map fst al" for al :: new_rules
    by (induction al) auto
  have look: "map_of (map ?strip al) k = map_option recursivelyRemovePosition_out_rule (map_of al k)"
    for al :: new_rules
    by (induction al) auto
  show "map fst nr = filter (\<lambda>k. k \<noteq> ''position'') (map fst nr0)"
    unfolding nr keys by (induction nr0) auto
  show "map_of nr k =
           (if k = ''position'' then None
            else map_option recursivelyRemovePosition_out_rule (map_of nr0 k))"
    unfolding nr look by (simp add: delete_conv')
qed

text \<open>
  A well-formed stylesheet with plain keys, without uglification: \<open>css\<close> returns the
  deduplicated class map and the rules of the table, which holds under every key the
  last rule assigned to it.
\<close>

lemma plain_keys_written:
  assumes "plain_keys E toUpperCase opts rs" and "r \<in> set rs"
    and "(k, v) \<in> set (rule_writes E toUpperCase opts r)"
  shows "k \<notin> set special_keys"
proof -
  from assms(3) have "k \<in> set (rule_keys E toUpperCase opts r)"
    by (force simp: rule_keys_def)
  with assms(1,2) show ?thesis
    by (auto simp: plain_keys_def list_all_iff)
qed

lemma atomize_plain:
  assumes wf: "list_all well_formed_rule rs" and plain: "plain_keys E toUpperCase opts rs"
  obtains cm nr where
    "forEach (atomize_rule E toUpperCase opts) rs ([], []) = Inr (cm, nr)"
    "atomize E toUpperCase U opts (Rules rs) False = Inr (removeIdenticalProperties cm, output_rules nr)"
    "recursivelyRemovePosition_newRules nr = Inr nr"
    "distinct (map fst nr)"
    "\<And>k. map_of nr k = map_of (rev (concat (map (rule_writes E toUpperCase opts) rs))) k"
    "\<And>k v. map_of nr k = Some v \<Longrightarrow> out_selectors v = [[Some k]]"
proof -
  let ?W = "concat (map (rule_writes E toUpperCase opts) rs)"
  from atomize_rules_total [OF wf] obtain cm nr where
    run: "forEach (atomize_rule E toUpperCase opts) rs ([], []) = Inr (cm, nr)"
    by (metis surj_pair)
  note facts = atomize_rules_table_facts [OF run]
  have dist: "distinct (map fst nr)"
    by (rule facts(1))
  have src: "\<exists>r\<in>set rs. (k, v) \<in> set (rule_writes E toUpperCase opts r)" if "(k, v) \<in> set nr" for k v
    using that by (rule facts(4))
  have ordinary: "k \<notin> set special_keys" if "(k, v) \<in> set nr" for k v
    using src [OF that] plain plain_keys_written by blast
  have written: "k \<notin> set special_keys" if "k \<in> fst ` set ?W" for k
    using that plain plain_keys_written by fastforce
  have look: "map_of nr k = map_of (rev ?W) k" for k
  proof (cases "k = ''__proto__''")
    case True
    have "k \<notin> fst ` set nr"
      using facts(3) True by simp
    then have "map_of nr k = None"
      by (simp add: map_of_eq_None_iff)
    moreover have "k \<notin> fst ` set (rev ?W)"
      using written [of k] True by (auto simp: special_keys_def)
    then have "map_of (rev ?W) k = None"
      by (rule map_of_eq_None_iff [THEN iffD2])
    ultimately show ?thesis
      by simp
  next
    case False
    then show ?thesis
      by (rule facts(2))
  qed
  have sel: "out_selectors v = [[Some k]]" if "map_of nr k = Some v" for k v
  proof -
    from that have "(k, v) \<in> set nr"
      by (rule map_of_SomeD)
    from src [OF this] obtain r where "r \<in> set rs" "(k, v) \<in> set (rule_writes E toUpperCase opts r)"
      by blast
    with wf rule_writes_selectors show ?thesis
      by (metis list_all_iff)
  qed
  have strip: "recursivelyRemovePosition_newRules nr = Inr nr"
  proof (rule recursivelyRemovePosition_newRules_plain)
    show "''hasOwnProperty'' \<notin> fst ` set nr"
      using ordinary by (force simp: special_keys_def)
    show "''position'' \<notin> fst ` set nr"
      using ordinary by (force simp: special_keys_def)
    show "recursivelyRemovePosition_out_rule v = v" if "(k, v) \<in> set nr" for k v
      using src [OF that] rule_writes_stripped by blast
  qed
  then have "atomize E toUpperCase U opts (Rules rs) False = Inr (removeIdenticalProperties cm, output_rules nr)"
    using run by (simp add: atomize_def)
  with run strip dist look sel show thesis
    using that by blast
qed


section \<open>Rules with a pseudo class\<close>

lemma class_component_atomized: "is_class_component c \<Longrightarrow> \<not> is_non_class c"
  by (simp add: is_class_component_def is_non_class_def)

lemma stripped_declaration_mem:
  "d \<in> set (rule_declarations r) \<Longrightarrow>
   recursivelyRemovePosition_declaration d \<in> set (rule_declarations (recursivelyRemovePosition_rule r))"
  by (simp add: recursivelyRemovePosition_rule_def)

lemma encoded_name_pseudo:
  assumes "rule_selectors r = (c # c' # cs) # selectors"
    and "comp_type c' = ''pseudo''" and "comp_name c' = Some pseudoName"
  shows "encoded_name E toUpperCase opts (recursivelyRemovePosition_rule r) d =
           Inr (E opts d @ ''___-'' @ toUpperCase pseudoName @ '':'' @ pseudoName)"
  using assms by (simp add: encoded_name_def pseudo_component_def)


lemma rule_writes_atomized:
  assumes "first_component r = Some c" and "\<not> is_non_class c"
    and "d \<in> set (rule_declarations (recursivelyRemovePosition_rule r))"
    and "encoded_name E toUpperCase opts (recursivelyRemovePosition_rule r) d = Inr key"
  shows "(key, \<lparr>out_selectors = [[Some key]], out_declarations = [d]\<rparr>) \<in> set (rule_writes E toUpperCase opts r)"
  using assms by (force simp: rule_writes_def Let_def List.map_filter_def)

text \<open>
  Every name written by a rule of the stylesheet is a key of the table, and the rule
  stored under it reaches the serializer.
\<close>

lemma written_key_in_output:
  assumes nr: "\<And>k. map_of nr k = map_of (rev (concat (map (rule_writes E toUpperCase opts) rs))) k"
    and dist: "distinct (map fst nr)"
    and r: "r \<in> set rs" and w: "(key, v) \<in> set (rule_writes E toUpperCase opts r)"
  shows "\<exists>rule. map_of nr key = Some rule \<and> rule \<in> set (output_rules nr)"
proof -
  have "key \<in> fst ` set (rev (concat (map (rule_writes E toUpperCase opts) rs)))"
    using r w by force
  then obtain rule where "map_of nr key = Some rule"
    unfolding nr by (metis map_of_eq_None_iff not_Some_eq)
  then show ?thesis
    using set_output_rules [OF dist] by blast
qed

text \<open>What \<open>css\<close> and \<open>atomize\<close> did when they returned.\<close>

lemma css_returned:
  assumes "cssParser (options_or_empty options0) (input_or_empty input0)
             = (Inr (Some (Rules rs)), reports)"
    and "css cssParser E toUpperCase U S options0 input0 uglify log = (Inr res, log')"
  obtains classMap out where
    "atomize E toUpperCase U (options_or_empty options0) (Rules rs) uglify = Inr (classMap, out)"
    "res = \<lparr>res_classMap = classMap, res_output = S out\<rparr>"
  using assms by (auto simp: css_def Let_def split: sum.splits)

lemma atomize_returned:
  assumes "atomize E toUpperCase U opts (Rules rs) False = Inr (classMap, out)"
  obtains cm nr0 nr where
    "forEach (atomize_rule E toUpperCase opts) rs ([], []) = Inr (cm, nr0)"
    "recursivelyRemovePosition_newRules nr0 = Inr nr"
    "classMap = removeIdenticalProperties cm" "out = output_rules nr"
  using assms by (auto simp: atomize_def split: sum.splits)

lemma colon_not_special:
  assumes "CHR '':'' \<in> set k"
  shows "k \<noteq> ''__proto__''" and "k \<noteq> ''position''" and "k \<noteq> ''hasOwnProperty''"
  using assms by auto

text \<open>
  An entry assigned under a key that contains a colon has the key as its only selector:
  the key is a selector text or the name of a declaration, and not \<open>'undefined'\<close>.
\<close>

lemma colon_key_selectors:
  assumes "(key, v) \<in> set (rule_writes E toUpperCase opts r)" and "CHR '':'' \<in> set key"
  shows "out_selectors v = [[Some key]]"
  using assms(1)
proof (cases rule: rule_writes_cases)
  case (non_class c)
  with assms(2) show ?thesis
    by (cases "comp_original c") (auto simp: property_key_def)
next
  case (atomized c d)
  then show ?thesis by simp
qed

text \<open>
  C7. Take a class-targeted rule of the parsed stylesheet whose first selector has a
  pseudo component in second place, and one of its declarations. The name computed for the
  declaration (lines 207 to 214) is the encoded name followed by \<open>___-\<close>, the upper-cased
  pseudo name, a colon and the pseudo name as written, whatever \<open>toUpperCase\<close> does.
  Whenever the loop over the rules returns, the table holds a rule under exactly this key,
  with the key as its selector; this is before the uglifier pass, which renames the keys
  when the flag is set. Whenever \<open>css\<close>, called without uglification, returns, a rule with
  exactly this name as its selector is among the rules handed to the serializer. And
  \<open>css\<close> does return when the stylesheet is well formed and has plain keys.
\<close>

theorem pseudo_rule_key:
  assumes parse: "cssParser (options_or_empty options0) (input_or_empty input0)
                    = (Inr (Some (Rules rules)), reports)"
    and r: "r \<in> set rules" "rule_selectors r = (c # c' # cs) # selectors"
    and cls: "is_class_component c"
    and pseudo: "comp_type c' = ''pseudo''" "comp_name c' = Some pseudoName"
    and d: "d \<in> set (rule_declarations r)"
  shows "encoded_name E toUpperCase (options_or_empty options0) (recursivelyRemovePosition_rule r)
           (recursivelyRemovePosition_declaration d) =
         Inr (E (options_or_empty options0) (recursivelyRemovePosition_declaration d)
              @ ''___-'' @ toUpperCase pseudoName @ '':'' @ pseudoName) \<and>
    (\<forall>classMap newRules.
       forEach (atomize_rule E toUpperCase (options_or_empty options0)) rules ([], [])
         = Inr (classMap, newRules) \<longrightarrow>
       (\<exists>rule.
          map_of newRules
            (E (options_or_empty options0) (recursivelyRemovePosition_declaration d)
             @ ''___-'' @ toUpperCase pseudoName @ '':'' @ pseudoName) = Some rule \<and>
          out_selectors rule =
            [[Some (E (options_or_empty options0) (recursivelyRemovePosition_declaration d)
                    @ ''___-'' @ toUpperCase pseudoName @ '':'' @ pseudoName)]])) \<and>
    (\<forall>res log'.
       css cssParser E toUpperCase U S options0 input0 False log = (Inr res, log') \<longrightarrow>
       (\<exists>out rule.
          res_output res = S out \<and> rule \<in> set out \<and>
          out_selectors rule =
            [[Some (E (options_or_empty options0) (recursivelyRemovePosition_declaration d)
                    @ ''___-'' @ toUpperCase pseudoName @ '':'' @ pseudoName)]])) \<and>
    (list_all well_formed_rule rules \<and> plain_keys E toUpperCase (options_or_empty options0) rules
       \<longrightarrow>
     (\<exists>res. css cssParser E toUpperCase U S options0 input0 False log = (Inr res, log @ reports)))"
proof -
  let ?opts = "options_or_empty options0"
  let ?d = "recursivelyRemovePosition_declaration d"
  let ?key = "E ?opts ?d @ ''___-'' @ toUpperCase pseudoName @ '':'' @ pseudoName"
  let ?W = "concat (map (rule_writes E toUpperCase ?opts) rules)"
  have name: "encoded_name E toUpperCase ?opts (recursivelyRemovePosition_rule r) ?d = Inr ?key"
    using r(2) pseudo by (rule encoded_name_pseudo)
  have fc: "first_component r = Some c"
    using r(2) by (simp add: first_component_def)
  have w: "(?key, \<lparr>out_selectors = [[Some ?key]], out_declarations = [?d]\<rparr>)
             \<in> set (rule_writes E toUpperCase ?opts r)"
    using fc class_component_atomized [OF cls] stripped_declaration_mem [OF d] name
    by (rule rule_writes_atomized)
  have colon: "CHR '':'' \<in> set ?key"
    by simp
  have not_proto: "?key \<noteq> ''__proto__''"
    using colon by (rule colon_not_special(1))
  have not_position: "?key \<noteq> ''position''"
    using colon by (rule colon_not_special(2))
  have table: "\<exists>rule. map_of newRules ?key = Some rule \<and> out_selectors rule = [[Some ?key]]"
    if run: "forEach (atomize_rule E toUpperCase ?opts) rules ([], []) = Inr (classMap, newRules)"
    for classMap newRules
  proof -
    have look: "map_of newRules ?key = map_of (rev ?W) ?key"
      using not_proto by (rule atomize_rules_table_facts(2) [OF run])
    have "(?key, \<lparr>out_selectors = [[Some ?key]], out_declarations = [?d]\<rparr>) \<in> set (rev ?W)"
      using r(1) w by (simp only: set_rev set_concat set_map) (rule UN_I [OF imageI])
    then have "?key \<in> fst ` set (rev ?W)"
      by (rule image_eqI [rotated]) simp
    then have "map_of (rev ?W) ?key \<noteq> None"
      by (simp only: map_of_eq_None_iff not_not)
    then obtain rule where rule: "map_of (rev ?W) ?key = Some rule"
      by blast
    then have "(?key, rule) \<in> set (rev ?W)"
      by (rule map_of_SomeD)
    then obtain r' where "(?key, rule) \<in> set (rule_writes E toUpperCase ?opts r')"
      by (auto simp only: set_rev set_concat set_map)
    then have "out_selectors rule = [[Some ?key]]"
      using colon by (rule colon_key_selectors)
    with look rule show ?thesis
      by simp
  qed
  have handed: "\<exists>out rule. res_output res = S out \<and> rule \<in> set out \<and>
      out_selectors rule = [[Some ?key]]"
    if ret: "css cssParser E toUpperCase U S options0 input0 False log = (Inr res, log')"
    for res log'
  proof -
    from parse ret obtain classMap out where
      at: "atomize E toUpperCase U ?opts (Rules rules) False = Inr (classMap, out)"
      and res: "res = \<lparr>res_classMap = classMap, res_output = S out\<rparr>"
      by (rule css_returned)
    from at obtain cm nr0 nr where
      run: "forEach (atomize_rule E toUpperCase ?opts) rules ([], []) = Inr (cm, nr0)"
      and strip: "recursivelyRemovePosition_newRules nr0 = Inr nr"
      and out: "out = output_rules nr"
      by (rule atomize_returned)
    from table [OF run] obtain rule where
      rule: "map_of nr0 ?key = Some rule" "out_selectors rule = [[Some ?key]]"
      by blast
    let ?rule = "recursivelyRemovePosition_out_rule rule"
    have "map_of nr ?key = Some ?rule"
      using recursivelyRemovePosition_newRules_Inr(2) [OF strip, of ?key] not_position rule(1)
      by simp
    moreover have "distinct (map fst nr)"
      using atomize_rules_table_facts(1) [OF run]
      by (simp add: recursivelyRemovePosition_newRules_Inr(1) [OF strip])
    ultimately have "?rule \<in> set (output_rules nr)"
      using set_output_rules by blast
    moreover have "out_selectors ?rule = [[Some ?key]]"
      using rule(2) by (simp add: recursivelyRemovePosition_out_rule_def)
    ultimately show ?thesis
      using res out by auto
  qed
  have returns: "\<exists>res. css cssParser E toUpperCase U S options0 input0 False log
      = (Inr res, log @ reports)"
    if "list_all well_formed_rule rules \<and> plain_keys E toUpperCase ?opts rules"
  proof -
    from that have wf: "list_all well_formed_rule rules"
      and plain: "plain_keys E toUpperCase ?opts rules"
      by simp_all
    from wf plain obtain cm nr where
      at: "atomize E toUpperCase U ?opts (Rules rules) False
         = Inr (removeIdenticalProperties cm, output_rules nr)"
      by (rule atomize_plain [where E = E and toUpperCase = toUpperCase and U = U and opts = ?opts])
    have "css cssParser E toUpperCase U S options0 input0 False log =
        (Inr \<lparr>res_classMap = removeIdenticalProperties cm, res_output = S (output_rules nr)\<rparr>,
         log @ reports)"
      using parse at by (rule css_atomized)
    then show ?thesis
      by (rule exI)
  qed
  show ?thesis
  proof (intro conjI allI impI)
    show "encoded_name E toUpperCase ?opts (recursivelyRemovePosition_rule r) ?d = Inr ?key"
      by (rule name)
    show "\<exists>rule. map_of newRules ?key = Some rule \<and> out_selectors rule = [[Some ?key]]"
      if "forEach (atomize_rule E toUpperCase ?opts) rules ([], []) = Inr (classMap, newRules)"
      for classMap newRules
      using that by (rule table)
    show "\<exists>out rule. res_output res = S out \<and> rule \<in> set out \<and>
        out_selectors rule = [[Some ?key]]"
      if "css cssParser E toUpperCase U S options0 input0 False log = (Inr res, log')"
      for res log'
      using that by (rule handed)
    show "\<exists>res. css cssParser E toUpperCase U S options0 input0 False log
        = (Inr res, log @ reports)"
      if "list_all well_formed_rule rules \<and> plain_keys E toUpperCase ?opts rules"
      using that by (rule returns)
  qed
qed

lemma sample_hover_parsed:
  "cssParser_stripping sample_parse sample_selectorParse (options_or_empty None)
     (input_or_empty (Some ''.a:hover{color:red}'')) =
   (Inr (Some (Rules
      [\<lparr>rule_selectors =
          [[\<lparr>comp_type = ''attribute'', comp_name = Some ''class'',
             comp_original = Some ''.a:hover''\<rparr>,
            \<lparr>comp_type = ''pseudo'', comp_name = Some ''hover'', comp_original = None\<rparr>]],
        rule_declarations =
          [\<lparr>property = ''color'', decl_value = ''red'', decl_position = None\<rparr>],
        rule_position = None\<rparr>])), [])"
  by (simp add: parser_defs sample_defs options_or_empty_def input_or_empty_def)

lemmas wf_defs =
  well_formed_rule_def well_formed_selector_def pseudo_component_def first_component_def
  names_inherited_member_def Object_prototype_names_def is_non_class_def split0_def
  plain_keys_def special_keys_def rule_keys_def rule_writes_def encoded_name_def
  recursivelyRemovePosition_rule_def recursivelyRemovePosition_declaration_def
  List.map_filter_def sample_encoder_def sample_toUpperCase_def sample_toUpperCase_char_def

theorem pseudo_rule_key_witness:
  "\<exists>res out rule.
     css (cssParser_stripping sample_parse sample_selectorParse) sample_encoder sample_toUpperCase
         sample_uglifier sample_stringify None (Some ''.a:hover{color:red}'') False [] =
       (Inr res, []) \<and>
     res_output res = sample_stringify out \<and> rule \<in> set out \<and>
     out_selectors rule = [[Some ''.rp__color__--COLONred___-HOVER:hover'']]"
proof -
  let ?c = "\<lparr>comp_type = ''attribute'', comp_name = Some ''class'',
             comp_original = Some ''.a:hover''\<rparr>"
  let ?c' = "\<lparr>comp_type = ''pseudo'', comp_name = Some ''hover'', comp_original = None\<rparr>"
  let ?d = "\<lparr>property = ''color'', decl_value = ''red'', decl_position = None\<rparr>"
  let ?r = "\<lparr>rule_selectors = [[?c, ?c']], rule_declarations = [?d], rule_position = None\<rparr>"
  let ?run = "css (cssParser_stripping sample_parse sample_selectorParse) sample_encoder
    sample_toUpperCase sample_uglifier sample_stringify None (Some ''.a:hover{color:red}'') False []"
  have wf: "list_all well_formed_rule [?r] \<and>
      plain_keys sample_encoder sample_toUpperCase (options_or_empty None) [?r]"
    by (simp add: wf_defs)
  have r: "?r \<in> set [?r]" and sel: "rule_selectors ?r = (?c # ?c' # []) # []"
    and cls: "is_class_component ?c"
    and pseudo: "comp_type ?c' = ''pseudo''" "comp_name ?c' = Some ''hover''"
    and d: "?d \<in> set (rule_declarations ?r)"
    by (simp_all add: is_class_component_def)
  note key = pseudo_rule_key [where cssParser = "cssParser_stripping sample_parse sample_selectorParse"
      and ?options0.0 = None and ?input0.0 = "Some ''.a:hover{color:red}''"
      and E = sample_encoder and toUpperCase = sample_toUpperCase and U = sample_uglifier and S = sample_stringify and log = "[]",
      OF sample_hover_parsed r sel cls pseudo d]
  from key [THEN conjunct2, THEN conjunct2, THEN conjunct2] wf
  obtain res where res: "?run = (Inr res, [])"
    by auto
  from key [THEN conjunct2, THEN conjunct2, THEN conjunct1] res
  obtain out rule where
    "res_output res = sample_stringify out" "rule \<in> set out"
    "out_selectors rule =
       [[Some (sample_encoder (options_or_empty None) (recursivelyRemovePosition_declaration ?d)
               @ ''___-'' @ sample_toUpperCase ''hover'' @ '':'' @ ''hover'')]]"
    by blast
  moreover have "sample_encoder (options_or_empty None) (recursivelyRemovePosition_declaration ?d)
               @ ''___-'' @ sample_toUpperCase ''hover'' @ '':'' @ ''hover''
      = ''.rp__color__--COLONred___-HOVER:hover''"
    by (simp add: sample_encoder_def recursivelyRemovePosition_declaration_def
        sample_toUpperCase_def sample_toUpperCase_char_def)
  ultimately have "res_output res = sample_stringify out \<and> rule \<in> set out \<and>
     out_selectors rule = [[Some ''.rp__color__--COLONred___-HOVER:hover'']]"
    by simp
  with res show ?thesis
    by blast
qed

section \<open>The class map of a rule with a pseudo class\<close>

text \<open>
  C2, as stated, fails. For \<open>.a:hover { color: red }\<close> without uglification the class map
  holds, under \<open>.a\<close>, the encoded name followed by the marker \<open>___-HOVER\<close>, not the encoded
  name alone. With uglification it holds the short name drawn for the rule, and the
  selector of the rule is that short name followed by \<open>:hover\<close>.
\<close>

theorem pseudo_marker_in_classMap_counterexample:
  "css (cssParser_stripping sample_parse sample_selectorParse) sample_encoder sample_toUpperCase
       sample_uglifier sample_stringify None (Some ''.a:hover{color:red}'') False [] =
     (Inr \<lparr>res_classMap = [(''.a'', [''.rp__color__--COLONred___-HOVER''])],
           res_output = ''.rp__color__--COLONred___-HOVER:hover{color:red;}''\<rparr>, []) \<and>
   [''.rp__color__--COLONred___-HOVER''] \<noteq>
     [sample_encoder \<lparr>verbose = False\<rparr>
        \<lparr>property = ''color'', decl_value = ''red'', decl_position = None\<rparr>] \<and>
   css (cssParser_stripping sample_parse sample_selectorParse) sample_encoder sample_toUpperCase
       sample_uglifier sample_stringify None (Some ''.a:hover{color:red}'') True [] =
     (Inr \<lparr>res_classMap = [(''.a'', [''.rp__a''])],
           res_output = ''.rp__a:hover{color:red;}''\<rparr>, [])"
  by (simp add: css_defs parser_defs sample_defs engine_defs uglify_defs)

text \<open>
  C2, amended. Without uglification, take a well-formed stylesheet with plain keys, a
  class-targeted rule of it whose first selector has a pseudo component in second place,
  one of its declarations and one of its selectors. The class map has an entry under the
  selector text up to its first colon, and the entry holds the name of the declaration up
  to its first colon; when the encoded name and the upper-cased pseudo name have no
  colon, that is the encoded name followed by \<open>___-\<close> and the upper-cased pseudo name. No
  value of the class map contains a colon, so the suffix \<open>:pseudo\<close> is never stored. The
  rule handed to the serializer carries the full name, suffix included, as its selector.
\<close>

theorem pseudo_rule_classMap:
  assumes parse: "cssParser (options_or_empty options0) (input_or_empty input0)
                    = (Inr (Some (Rules rules)), reports)"
    and wf: "list_all well_formed_rule rules"
    and plain: "plain_keys E toUpperCase (options_or_empty options0) rules"
    and r: "r \<in> set rules" "rule_selectors r = (c # c' # cs) # selectors"
    and cls: "is_class_component c"
    and pseudo: "comp_type c' = ''pseudo''" "comp_name c' = Some pseudoName"
    and d: "d \<in> set (rule_declarations r)"
    and sel: "c1 # cs1 \<in> set (rule_selectors r)" "comp_original c1 = Some text"
  shows "\<exists>classMap out entries rule.
       css cssParser E toUpperCase U S options0 input0 False log =
         (Inr \<lparr>res_classMap = classMap, res_output = S out\<rparr>, log @ reports) \<and>
       map_of classMap (before_colon text) = Some entries \<and>
       before_colon (E (options_or_empty options0) (recursivelyRemovePosition_declaration d)
                     @ ''___-'' @ toUpperCase pseudoName @ '':'' @ pseudoName)
         \<in> set entries \<and>
       (CHR '':'' \<notin> set (E (options_or_empty options0) (recursivelyRemovePosition_declaration d))
          \<and> CHR '':'' \<notin> set (toUpperCase pseudoName) \<longrightarrow>
        E (options_or_empty options0) (recursivelyRemovePosition_declaration d)
          @ ''___-'' @ toUpperCase pseudoName \<in> set entries) \<and>
       (\<forall>k xs. map_of classMap k = Some xs \<longrightarrow> (\<forall>v\<in>set xs. CHR '':'' \<notin> set v)) \<and>
       rule \<in> set out \<and>
       out_selectors rule =
         [[Some (E (options_or_empty options0) (recursivelyRemovePosition_declaration d)
                 @ ''___-'' @ toUpperCase pseudoName @ '':'' @ pseudoName)]]"
proof -
  let ?opts = "options_or_empty options0"
  let ?d = "recursivelyRemovePosition_declaration d"
  let ?base = "E ?opts ?d @ ''___-'' @ toUpperCase pseudoName"
  let ?key = "E ?opts ?d @ ''___-'' @ toUpperCase pseudoName @ '':'' @ pseudoName"
  have name: "encoded_name E toUpperCase ?opts (recursivelyRemovePosition_rule r) ?d = Inr ?key"
    using r(2) pseudo by (rule encoded_name_pseudo)
  have fc: "first_component r = Some c"
    using r(2) by (simp add: first_component_def)
  have w: "(?key, \<lparr>out_selectors = [[Some ?key]], out_declarations = [?d]\<rparr>)
             \<in> set (rule_writes E toUpperCase ?opts r)"
    using fc class_component_atomized [OF cls] stripped_declaration_mem [OF d] name
    by (rule rule_writes_atomized)
  from wf plain obtain cm nr where
    run: "forEach (atomize_rule E toUpperCase ?opts) rules ([], []) = Inr (cm, nr)"
    and at: "atomize E toUpperCase U ?opts (Rules rules) False = Inr (removeIdenticalProperties cm, output_rules nr)"
    and dist: "distinct (map fst nr)"
    and look: "\<And>k. map_of nr k = map_of (rev (concat (map (rule_writes E toUpperCase ?opts) rules))) k"
    and osel: "\<And>k v. map_of nr k = Some v \<Longrightarrow> out_selectors v = [[Some k]]"
    by (rule atomize_plain [where E = E and toUpperCase = toUpperCase and U = U and opts = ?opts])
       blast
  let ?classMap = "removeIdenticalProperties cm"
  from written_key_in_output [OF look dist r(1) w] obtain rule where
    rule: "map_of nr ?key = Some rule" "rule \<in> set (output_rules nr)"
    by blast
  have result: "css cssParser E toUpperCase U S options0 input0 False log =
      (Inr \<lparr>res_classMap = ?classMap, res_output = S (output_rules nr)\<rparr>, log @ reports)"
    using parse at by (rule css_atomized)
  have "split0 ?key \<in> set (classMap_entries ?classMap (split0 text))"
    using atomize_rules_mem [OF run r(1) fc class_component_atomized [OF cls]
        stripped_declaration_mem [OF d] sel] name
    by (simp add: classMap_entries_removeIdenticalProperties)
  then obtain entries where entries: "map_of ?classMap (split0 text) = Some entries"
    and mem: "split0 ?key \<in> set entries"
    by (auto simp only: classMap_entries_mem)
  have base: "?base \<in> set entries"
    if "CHR '':'' \<notin> set (E ?opts ?d) \<and> CHR '':'' \<notin> set (toUpperCase pseudoName)"
  proof -
    from that have "CHR '':'' \<notin> set ?base"
      by simp
    from split0_append_colon [OF this, of pseudoName] mem show ?thesis
      by simp
  qed
  have colon: "CHR '':'' \<notin> set v" if xs: "map_of ?classMap k = Some xs" and v: "v \<in> set xs"
    for k xs v
  proof -
    from xs v have "v \<in> set (classMap_entries ?classMap k)"
      by (auto simp only: classMap_entries_mem)
    then have "v \<in> set (classMap_entries cm k)"
      by (simp add: classMap_entries_removeIdenticalProperties)
    from atomize_rules_values [OF run] this have "\<exists>key. v = split0 key"
      by (fastforce simp: classMap_entries_def)
    then show ?thesis
      using colon_notin_split0 by blast
  qed
  show ?thesis
  proof (intro exI conjI allI impI ballI)
    show "css cssParser E toUpperCase U S options0 input0 False log =
      (Inr \<lparr>res_classMap = ?classMap, res_output = S (output_rules nr)\<rparr>, log @ reports)"
      by (rule result)
    show "map_of ?classMap (before_colon text) = Some entries"
      using entries by simp
    show "before_colon ?key \<in> set entries"
      using mem by simp
    show "?base \<in> set entries"
      if "CHR '':'' \<notin> set (E ?opts ?d) \<and> CHR '':'' \<notin> set (toUpperCase pseudoName)"
      using that by (rule base)
    show "CHR '':'' \<notin> set v" if "map_of ?classMap k = Some xs" and "v \<in> set xs" for k xs v
      using that by (rule colon)
    show "rule \<in> set (output_rules nr)"
      by (rule rule(2))
    show "out_selectors rule = [[Some ?key]]"
      using rule(1) by (rule osel)
  qed
qed

theorem pseudo_rule_classMap_witness:
  "\<exists>classMap out entries rule.
     css (cssParser_stripping sample_parse sample_selectorParse) sample_encoder sample_toUpperCase
         sample_uglifier sample_stringify None (Some ''.a:hover{color:red}'') False [] =
       (Inr \<lparr>res_classMap = classMap, res_output = sample_stringify out\<rparr>, []) \<and>
     map_of classMap ''.a'' = Some entries \<and>
     ''.rp__color__--COLONred___-HOVER'' \<in> set entries \<and>
     rule \<in> set out \<and>
     out_selectors rule = [[Some ''.rp__color__--COLONred___-HOVER:hover'']]"
proof -
  let ?c = "\<lparr>comp_type = ''attribute'', comp_name = Some ''class'',
             comp_original = Some ''.a:hover''\<rparr>"
  let ?c' = "\<lparr>comp_type = ''pseudo'', comp_name = Some ''hover'', comp_original = None\<rparr>"
  let ?d = "\<lparr>property = ''color'', decl_value = ''red'', decl_position = None\<rparr>"
  let ?r = "\<lparr>rule_selectors = [[?c, ?c']], rule_declarations = [?d], rule_position = None\<rparr>"
  have wf: "list_all well_formed_rule [?r]"
    and plain: "plain_keys sample_encoder sample_toUpperCase (options_or_empty None) [?r]"
    by (simp_all add: wf_defs)
  have r: "?r \<in> set [?r]" and sel: "rule_selectors ?r = (?c # ?c' # []) # []"
    and cls: "is_class_component ?c"
    and pseudo: "comp_type ?c' = ''pseudo''" "comp_name ?c' = Some ''hover''"
    and d: "?d \<in> set (rule_declarations ?r)"
    and s: "?c # [?c'] \<in> set (rule_selectors ?r)" "comp_original ?c = Some ''.a:hover''"
    by (simp_all add: is_class_component_def)
  have key: "sample_encoder (options_or_empty None) (recursivelyRemovePosition_declaration ?d)
               @ ''___-'' @ sample_toUpperCase ''hover'' @ '':'' @ ''hover''
      = ''.rp__color__--COLONred___-HOVER:hover''"
    by (simp add: sample_encoder_def recursivelyRemovePosition_declaration_def
        sample_toUpperCase_def sample_toUpperCase_char_def)
  have sp: "before_colon ''.rp__color__--COLONred___-HOVER:hover'' = ''.rp__color__--COLONred___-HOVER''"
    "before_colon ''.a:hover'' = ''.a''"
    by (simp_all add: before_colon_def del: before_colon_split0)
  from pseudo_rule_classMap [where cssParser = "cssParser_stripping sample_parse sample_selectorParse"
      and ?options0.0 = None and ?input0.0 = "Some ''.a:hover{color:red}''"
      and E = sample_encoder and toUpperCase = sample_toUpperCase and U = sample_uglifier and S = sample_stringify and log = "[]",
      OF sample_hover_parsed wf plain r sel cls pseudo d s]
  obtain classMap out entries rule where
    "css (cssParser_stripping sample_parse sample_selectorParse) sample_encoder sample_toUpperCase
         sample_uglifier sample_stringify None (Some ''.a:hover{color:red}'') False [] =
       (Inr \<lparr>res_classMap = classMap, res_output = sample_stringify out\<rparr>, [] @ [])"
    "map_of classMap (before_colon ''.a:hover'') = Some entries"
    "before_colon (sample_encoder (options_or_empty None) (recursivelyRemovePosition_declaration ?d)
               @ ''___-'' @ sample_toUpperCase ''hover'' @ '':'' @ ''hover'') \<in> set entries"
    "rule \<in> set out"
    "out_selectors rule =
       [[Some (sample_encoder (options_or_empty None) (recursivelyRemovePosition_declaration ?d)
               @ ''___-'' @ sample_toUpperCase ''hover'' @ '':'' @ ''hover'')]]"
    by (elim exE conjE)
  then have
    "css (cssParser_stripping sample_parse sample_selectorParse) sample_encoder sample_toUpperCase
         sample_uglifier sample_stringify None (Some ''.a:hover{color:red}'') False [] =
       (Inr \<lparr>res_classMap = classMap, res_output = sample_stringify out\<rparr>, [])"
    "map_of classMap ''.a'' = Some entries"
    "''.rp__color__--COLONred___-HOVER'' \<in> set entries"
    "rule \<in> set out"
    "out_selectors rule = [[Some ''.rp__color__--COLONred___-HOVER:hover'']]"
    unfolding key sp by simp_all
  then show ?thesis
    by (intro exI conjI)
qed

section \<open>Declarations shared by several rules\<close>







section \<open>Rules that are not atomized\<close>









section \<open>A rule with several selectors that is not atomized\<close>

text \<open>
  C3. The stylesheet \<open>div, span { color: red }\<close> has one rule whose first selector is a
  tag. \<open>handleNonClasses\<close> stores it with the text of the first selector as its only
  selector: the rule handed to the serializer selects \<open>div\<close> alone, and the selector
  \<open>span\<close> is gone from the output. The declarations are kept and the class map stays
  empty.
\<close>

theorem non_class_rule_loses_selectors:
  "cssParser_stripping sample_parse sample_selectorParse (options_or_empty None)
     (input_or_empty (Some ''div,span{color:red}'')) =
   (Inr (Some (Rules
      [\<lparr>rule_selectors =
          [[\<lparr>comp_type = ''tag'', comp_name = Some ''div'', comp_original = Some ''div''\<rparr>],
           [\<lparr>comp_type = ''tag'', comp_name = Some ''span'', comp_original = Some ''span''\<rparr>]],
        rule_declarations =
          [\<lparr>property = ''color'', decl_value = ''red'', decl_position = None\<rparr>],
        rule_position = None\<rparr>])), []) \<and>
   atomize sample_encoder sample_toUpperCase sample_uglifier (options_or_empty None)
     (Rules
      [\<lparr>rule_selectors =
          [[\<lparr>comp_type = ''tag'', comp_name = Some ''div'', comp_original = Some ''div''\<rparr>],
           [\<lparr>comp_type = ''tag'', comp_name = Some ''span'', comp_original = Some ''span''\<rparr>]],
        rule_declarations =
          [\<lparr>property = ''color'', decl_value = ''red'', decl_position = None\<rparr>],
        rule_position = None\<rparr>]) False =
   Inr ([], [\<lparr>out_selectors = [[Some ''div'']],
              out_declarations =
                [\<lparr>property = ''color'', decl_value = ''red'', decl_position = None\<rparr>]\<rparr>]) \<and>
   css (cssParser_stripping sample_parse sample_selectorParse) sample_encoder sample_toUpperCase sample_uglifier
       sample_stringify None (Some ''div,span{color:red}'') False [] =
     (Inr \<lparr>res_classMap = [], res_output = ''div{color:red;}''\<rparr>, [])"
  by (simp add: css_defs parser_defs sample_defs engine_defs)

section \<open>The names drawn by the uglifier pass\<close>

lemma uglify_key_skip: "\<not> startsWith key CHR ''.'' \<Longrightarrow> uglify_key g key st = Inr st"
  by (cases st) (simp add: uglify_key_def)

lemma forEach_uglify_key_filter:
  "forEach (uglify_key g) ks st = forEach (uglify_key g) (filter (\<lambda>k. startsWith k CHR ''.'') ks) st"
  by (induction ks arbitrary: st) (simp_all add: uglify_key_skip split: sum.splits)

lemma draw_names_filter:
  "draw_names g ks i = draw_names g (filter (\<lambda>k. startsWith k CHR ''.'') ks) i"
  by (induction ks arbitrary: i) simp_all

lemma class_key_not_index: "startsWith k CHR ''.'' \<Longrightarrow> \<not> is_array_index k"
  by (cases k) (auto simp: startsWith_def is_array_index_def is_digit_def)

lemma filter_class_Object_keys:
  "filter (\<lambda>k. startsWith k CHR ''.'') (Object_keys t) = filter (\<lambda>k. startsWith k CHR ''.'') (map fst t)"
proof -
  have "filter (\<lambda>k. startsWith k CHR ''.'') (sort_key digits_value (filter is_array_index (map fst t))) = []"
    by (auto simp: filter_empty_conv class_key_not_index)
  moreover have "filter (\<lambda>k. startsWith k CHR ''.'') (filter (\<lambda>k. \<not> is_array_index k) (map fst t))
      = filter (\<lambda>k. startsWith k CHR ''.'') (map fst t)"
    by (auto simp: class_key_not_index intro: filter_cong)
  ultimately show ?thesis
    by (simp add: Object_keys_def)
qed

lemma keys_draw_names:
  "map fst (draw_names g ks i) = filter (\<lambda>k. startsWith k CHR ''.'') ks"
  by (induction ks arbitrary: i) simp_all

lemma draw_names_counter:
  assumes adv: "\<forall>i. i < snd (g i)"
  shows "(k, t) \<in> set (draw_names g ks i) \<Longrightarrow> \<exists>j\<ge>i. t = fst (g j)"
proof (induction ks arbitrary: i)
  case Nil
  then show ?case by simp
next
  case (Cons k' ks)
  show ?case
  proof (cases "startsWith k' CHR ''.''")
    case True
    with Cons.prems have "(k, t) = (k', fst (g i)) \<or> (k, t) \<in> set (draw_names g ks (snd (g i)))"
      by simp
    then show ?thesis
    proof
      assume "(k, t) = (k', fst (g i))"
      then show ?thesis by auto
    next
      assume "(k, t) \<in> set (draw_names g ks (snd (g i)))"
      from Cons.IH [OF this] obtain j where "snd (g i) \<le> j" "t = fst (g j)"
        by blast
      with adv [rule_format, of i] show ?thesis
        by (intro exI [of _ j]) simp
    qed
  next
    case False
    with Cons show ?thesis by simp
  qed
qed

lemma distinct_draw_names:
  assumes inj: "inj (\<lambda>i. fst (g i))" and adv: "\<forall>i. i < snd (g i)"
  shows "distinct (map snd (draw_names g ks i))"
proof (induction ks arbitrary: i)
  case Nil
  then show ?case by simp
next
  case (Cons k ks)
  show ?case
  proof (cases "startsWith k CHR ''.''")
    case True
    have "fst (g i) \<notin> snd ` set (draw_names g ks (snd (g i)))"
    proof
      assume "fst (g i) \<in> snd ` set (draw_names g ks (snd (g i)))"
      then obtain k' where "(k', fst (g i)) \<in> set (draw_names g ks (snd (g i)))"
        by auto
      from draw_names_counter [OF adv this] obtain j where
        j: "snd (g i) \<le> j" "fst (g i) = fst (g j)"
        by blast
      from inj j(2) have "i = j"
        by (simp add: inj_def)
      with j(1) adv [rule_format, of i] show False
        by simp
    qed
    with True Cons.IH show ?thesis
      by simp
  next
    case False
    with Cons.IH show ?thesis by simp
  qed
qed

section \<open>Renaming in the class map\<close>

lemma alist_eqI:
  assumes "map fst a = map fst b" and "distinct (map fst a)" and "\<And>k. map_of a k = map_of b k"
  shows "a = b"
proof -
  have len: "length a = length b"
    using assms(1) by (metis length_map)
  from len assms show ?thesis
  proof (induction a b rule: list_induct2)
    case Nil
    then show ?case by simp
  next
    case (Cons x xs y ys)
    obtain k v v' where x: "x = (k, v)" and y: "y = (k, v')"
      using Cons.prems(1) by (cases x, cases y) simp
    from Cons.prems(3) [of k] have v: "v = v'"
      by (simp add: x y)
    have "map_of xs k' = map_of ys k'" for k'
    proof (cases "k' = k")
      case True
      have keys: "map fst xs = map fst ys"
        using Cons.prems(1) by simp
      have nx: "k \<notin> set (map fst xs)"
        using Cons.prems(2) x by simp
      have ny: "k \<notin> set (map fst ys)"
        using nx keys by simp
      from nx ny have "k \<notin> fst ` set xs" and "k \<notin> fst ` set ys"
        by simp_all
      then have "map_of xs k = None" and "map_of ys k = None"
        by (simp_all add: map_of_eq_None_iff)
      with True show ?thesis
        by simp
    next
      case False
      with Cons.prems(3) [of k'] show ?thesis
        by (simp add: x y)
    qed
    moreover have "map fst xs = map fst ys" and "distinct (map fst xs)"
      using Cons.prems(1,2) by simp_all
    ultimately have "xs = ys"
      by (intro Cons.IH)
    with x y v show ?case
      by simp
  qed
qed

lemma indexOf_None: "indexOf xs x = None \<longleftrightarrow> x \<notin> set xs"
  by (induction xs) auto

lemma indexOf_update_distinct:
  "distinct xs \<Longrightarrow> indexOf xs b = Some i \<Longrightarrow> xs[i := t] = map (\<lambda>v. if v = b then t else v) xs"
proof (induction xs arbitrary: i)
  case Nil
  then show ?case by simp
next
  case (Cons x xs)
  show ?case
  proof (cases "x = b")
    case True
    with Cons.prems have "i = 0" and "b \<notin> set xs"
      by auto
    then have "map (\<lambda>v. if v = b then t else v) xs = xs"
      by (intro map_idI) auto
    with True \<open>i = 0\<close> show ?thesis
      by simp
  next
    case False
    with Cons.prems obtain j where j: "indexOf xs b = Some j" "i = Suc j"
      by auto
    with Cons.IH [of j] Cons.prems(1) False show ?thesis
      by simp
  qed
qed

lemma rename_entry_distinct:
  assumes "distinct xs"
  shows "(case indexOf xs b of None \<Rightarrow> xs | Some i \<Rightarrow> xs[i := t])
           = map (\<lambda>v. if v = b then t else v) xs"
proof (cases "indexOf xs b")
  case None
  then have "b \<notin> set xs"
    by (simp add: indexOf_None)
  then have "map (\<lambda>v. if v = b then t else v) xs = xs"
    by (intro map_idI) auto
  with None show ?thesis
    by simp
next
  case (Some i)
  with indexOf_update_distinct [OF assms Some] show ?thesis
    by simp
qed

lemma rename_in_classMap_update:
  "rename_in_classMap key name mapKey cm =
     (case map_of cm mapKey of
        None \<Rightarrow> cm
      | Some xs \<Rightarrow>
          AList.update mapKey
            (case indexOf xs (split0 key) of None \<Rightarrow> xs | Some i \<Rightarrow> xs[i := name]) cm)"
  by (simp add: rename_in_classMap_def update_triv split: option.splits)

lemma map_of_fold_values:
  assumes "distinct ks"
  shows "map_of (fold (\<lambda>k cm. case map_of cm k of None \<Rightarrow> cm | Some xs \<Rightarrow> AList.update k (h xs) cm) ks cm) k
           = (if k \<in> set ks then map_option h (map_of cm k) else map_of cm k)"
  using assms
proof (induction ks arbitrary: cm)
  case Nil
  then show ?case by simp
next
  case (Cons k' ks)
  let ?cm1 = "case map_of cm k' of None \<Rightarrow> cm | Some xs \<Rightarrow> AList.update k' (h xs) cm"
  have one: "map_of ?cm1 k = (if k = k' then map_option h (map_of cm k) else map_of cm k)"
    by (auto simp: update_conv' split: option.splits)
  from Cons.prems have "distinct ks" "k' \<notin> set ks"
    by simp_all
  with Cons.IH [of ?cm1] one show ?case
    by auto
qed

lemma keys_fold_values:
  "map fst (fold (\<lambda>k cm. case map_of cm k of None \<Rightarrow> cm | Some xs \<Rightarrow> AList.update k (h xs) cm) ks cm)
     = map fst cm"
proof (induction ks arbitrary: cm)
  case Nil
  then show ?case by simp
next
  case (Cons k' ks)
  have "map fst (case map_of cm k' of None \<Rightarrow> cm | Some xs \<Rightarrow> AList.update k' (h xs) cm) = map fst cm"
    by (auto simp: update_keys map_of_eq_None_iff split: option.splits)
  with Cons.IH show ?case
    by simp
qed

lemma fold_values_map:
  assumes "distinct (map fst cm)"
  shows "fold (\<lambda>k cm. case map_of cm k of None \<Rightarrow> cm | Some xs \<Rightarrow> AList.update k (h xs) cm)
           (Object_keys cm) cm
         = map (\<lambda>(k, xs). (k, h xs)) cm"
proof (rule alist_eqI)
  let ?f = "fold (\<lambda>k cm. case map_of cm k of None \<Rightarrow> cm | Some xs \<Rightarrow> AList.update k (h xs) cm)
              (Object_keys cm) cm"
  show "map fst ?f = map fst (map (\<lambda>(k, xs). (k, h xs)) cm)"
    by (simp add: keys_fold_values comp_def case_prod_unfold)
  show "distinct (map fst ?f)"
    using assms by (simp add: keys_fold_values)
  fix k
  have d: "distinct (Object_keys cm)"
    using assms by (simp add: distinct_Object_keys)
  have "map_of (map (\<lambda>(k, xs). (k, h xs)) cm) k = map_option h (map_of cm k)"
    by (induction cm) auto
  moreover have "map_of cm k = None" if "k \<notin> fst ` set cm"
    using that by (simp add: map_of_eq_None_iff)
  ultimately show "map_of ?f k = map_of (map (\<lambda>(k, xs). (k, h xs)) cm) k"
    using map_of_fold_values [OF d, of h cm k] by (auto simp: set_Object_keys)
qed

text \<open>
  The inner loop of the pass, on a class map whose arrays have no repeated value: every
  value equal to the old key up to its first colon becomes the short name.
\<close>

lemma rename_in_classMap_fold:
  assumes "distinct (map fst cm)" and "\<forall>(k, xs)\<in>set cm. distinct xs"
  shows "fold (rename_in_classMap key name) (Object_keys cm) cm =
         map (\<lambda>(k, xs). (k, map (\<lambda>v. if v = split0 key then name else v) xs)) cm"
proof -
  let ?h = "\<lambda>xs. case indexOf xs (split0 key) of None \<Rightarrow> xs | Some i \<Rightarrow> xs[i := name]"
  have "rename_in_classMap key name =
      (\<lambda>k cm. case map_of cm k of None \<Rightarrow> cm | Some xs \<Rightarrow> AList.update k (?h xs) cm)"
    by (intro ext) (rule rename_in_classMap_update)
  then have "fold (rename_in_classMap key name) (Object_keys cm) cm = map (\<lambda>(k, xs). (k, ?h xs)) cm"
    using fold_values_map [OF assms(1), of ?h] by simp
  also have "\<dots> = map (\<lambda>(k, xs). (k, map (\<lambda>v. if v = split0 key then name else v) xs)) cm"
    using assms(2) by (intro map_cong) (auto simp: rename_entry_distinct)
  finally show ?thesis .
qed

lemma rename_value_snoc:
  assumes "\<forall>(k', t')\<in>set ds. t' \<noteq> split0 k"
  shows "rename_value (ds @ [(k, t)]) v =
           (if rename_value ds v = split0 k then t else rename_value ds v)"
  using assms
proof (induction ds)
  case Nil
  then show ?case
    by (auto simp: rename_value_def)
next
  case (Cons d ds)
  obtain k' t' where d: "d = (k', t')"
    by (cases d)
  show ?case
  proof (cases "split0 k' = v")
    case True
    with Cons.prems d show ?thesis
      by (simp add: rename_value_def)
  next
    case False
    with Cons d show ?thesis
      by (simp add: rename_value_def)
  qed
qed

lemma rename_value_cases:
  obtains (kept) "rename_value ds v = v" "\<forall>(k, t)\<in>set ds. split0 k \<noteq> v"
    | (renamed) k where "(k, rename_value ds v) \<in> set ds" "split0 k = v"
proof (cases "find (\<lambda>(key, name). split0 key = v) ds")
  case None
  then have "rename_value ds v = v"
    by (simp add: rename_value_def)
  moreover from None have "\<forall>(k, t)\<in>set ds. split0 k \<noteq> v"
    by (auto simp: find_None_iff)
  ultimately have "rename_value ds v = v" "\<forall>(k, t)\<in>set ds. split0 k \<noteq> v"
    by simp_all
  then show thesis
    by (rule kept)
next
  case (Some e)
  obtain k t where e: "e = (k, t)"
    by (cases e)
  from Some have "e \<in> set ds \<and> (case e of (key, name) \<Rightarrow> split0 key = v)"
    by (auto simp: find_Some_iff in_set_conv_nth)
  with Some e have "(k, rename_value ds v) \<in> set ds" "split0 k = v"
    by (simp_all add: rename_value_def)
  then show thesis
    by (rule renamed)
qed

lemma distinct_map_rename_value:
  assumes "distinct xs" and "distinct (map snd ds)" and "\<forall>(k, t)\<in>set ds. t \<notin> set xs"
  shows "distinct (map (rename_value ds) xs)"
proof -
  have "inj_on (rename_value ds) (set xs)"
  proof (rule inj_onI)
    fix v w
    assume v: "v \<in> set xs" and w: "w \<in> set xs" and eq: "rename_value ds v = rename_value ds w"
    show "v = w"
    proof (cases ds v rule: rename_value_cases)
      case kept
      show ?thesis
      proof (cases ds w rule: rename_value_cases)
        case kept': kept
        with kept eq show ?thesis by simp
      next
        case (renamed k)
        with kept eq have "(k, v) \<in> set ds"
          by simp
        with assms(3) v show ?thesis
          by auto
      qed
    next
      case (renamed k)
      show ?thesis
      proof (cases ds w rule: rename_value_cases)
        case kept
        with renamed eq have "(k, w) \<in> set ds"
          by simp
        with assms(3) w show ?thesis
          by auto
      next
        case renamed': (renamed k')
        from renamed(1) renamed'(1) eq assms(2) have "k = k'"
          by (metis distinct_map inj_onD prod.inject snd_conv)
        with renamed renamed' show ?thesis
          by simp
      qed
    qed
  qed
  with assms(1) show ?thesis
    by (simp add: distinct_map)
qed

text \<open>One turn of the inner loop takes the class map from the names drawn so far to one more.\<close>

lemma uglified_classMap_step:
  assumes keys: "distinct (map fst cm0)" and dedup: "\<forall>(mk, xs)\<in>set cm0. distinct xs"
    and names: "distinct (map snd ds)" "\<forall>(k', t')\<in>set ds. t' \<noteq> split0 k"
      "\<forall>(k', t')\<in>set ds. \<forall>(mk, xs)\<in>set cm0. t' \<notin> set xs"
  shows "fold (rename_in_classMap k t) (Object_keys (uglified_classMap cm0 ds)) (uglified_classMap cm0 ds)
           = uglified_classMap cm0 (ds @ [(k, t)])"
proof -
  let ?C = "uglified_classMap cm0 ds"
  have k: "map fst ?C = map fst cm0"
    by (simp add: uglified_classMap_def comp_def case_prod_unfold)
  have d: "\<forall>(mk, ys)\<in>set ?C. distinct ys"
  proof -
    have "distinct (map (rename_value ds) xs)" if "(mk, xs) \<in> set cm0" for mk xs
      using that dedup names(1,3) by (intro distinct_map_rename_value) auto
    then show ?thesis
      by (auto simp: uglified_classMap_def)
  qed
  have "fold (rename_in_classMap k t) (Object_keys ?C) ?C =
      map (\<lambda>(mk, ys). (mk, map (\<lambda>v. if v = split0 k then t else v) ys)) ?C"
    using keys d by (intro rename_in_classMap_fold) (simp_all add: k)
  also have "\<dots> = uglified_classMap cm0 (ds @ [(k, t)])"
    using names(2) by (simp add: uglified_classMap_def rename_value_snoc comp_def case_prod_unfold)
  finally show ?thesis .
qed

section \<open>Renaming in the new-rules table\<close>

lemma split0_pseudo_suffix:
  assumes "CHR '':'' \<notin> set t"
  shows "split0 (t @ pseudo_suffix k) = t"
proof (cases "CHR '':'' \<in> set k")
  case True
  then have "t @ pseudo_suffix k = t @ CHR '':'' # join '':'' (tl (split CHR '':'' k))"
    by (simp add: pseudo_suffix_def)
  with split0_append_colon [OF assms] show ?thesis
    by simp
next
  case False
  with split0_no_colon [OF assms] show ?thesis
    by (simp add: pseudo_suffix_def)
qed

lemma update_new_key: "k \<notin> fst ` set al \<Longrightarrow> AList.update k v al = al @ [(k, v)]"
  by (induction al) auto

lemma uglified_rule_key:
  assumes "e \<in> set (List.map_filter (uglified_rule nr0) ds)"
  shows "\<exists>(k', t')\<in>set ds. fst e = t' @ pseudo_suffix k'"
proof -
  from assms obtain k' t' r where "(k', t') \<in> set ds" "map_of nr0 k' = Some r"
    "e = (t' @ pseudo_suffix k', r\<lparr>out_selectors := [[Some (t' @ pseudo_suffix k')]]\<rparr>)"
    by (auto simp: List.map_filter_def uglified_rule_def)
  then show ?thesis
    by (intro bexI [of _ "(k', t')"]) simp_all
qed

lemma uglified_table_keys:
  assumes "x \<in> fst ` set (uglified_table nr0 ds)"
  shows "(x \<in> fst ` set nr0 \<and> x \<notin> fst ` set ds) \<or> (\<exists>(k', t')\<in>set ds. x = t' @ pseudo_suffix k')"
proof -
  from assms obtain e where e: "e \<in> set (uglified_table nr0 ds)" "x = fst e"
    by auto
  then consider "e \<in> set (AList.restrict (- fst ` set ds) nr0)"
    | "e \<in> set (List.map_filter (uglified_rule nr0) ds)"
    by (auto simp: uglified_table_def)
  then show ?thesis
  proof cases
    case 1
    then have "e \<in> set nr0" "fst e \<notin> fst ` set ds"
      by (auto simp: AList.restrict_eq case_prod_unfold)
    with e show ?thesis
      by simp
  next
    case 2
    from uglified_rule_key [OF this] e show ?thesis
      by auto
  qed
qed

text \<open>
  One turn of the outer loop takes the table from the names drawn so far to one more, when
  the names have no colon and are not keys of the original table up to the first colon.
\<close>

lemma uglified_table_step:
  assumes k: "map_of nr0 k = Some r" "k \<notin> fst ` set ds"
    and t: "CHR '':'' \<notin> set t" "t \<notin> split0 ` fst ` set nr0" "t \<notin> snd ` set ds"
    and ds: "\<forall>(k', t')\<in>set ds. CHR '':'' \<notin> set t' \<and> t' \<notin> split0 ` fst ` set nr0"
  shows "map_of (uglified_table nr0 ds) k = Some r"
    and "AList.delete k
           (AList.update (t @ pseudo_suffix k)
              (r\<lparr>out_selectors := [[Some (t @ pseudo_suffix k)]]\<rparr>) (uglified_table nr0 ds))
         = uglified_table nr0 (ds @ [(k, t)])"
proof -
  let ?u = "t @ pseudo_suffix k"
  let ?old = "AList.restrict (- fst ` set ds) nr0"
  let ?new = "List.map_filter (uglified_rule nr0) ds"
  have kin: "k \<in> fst ` set nr0"
    using k(1) by (metis map_of_eq_None_iff option.distinct(1))
  have new_not_old: "x \<notin> fst ` set nr0" if "(k', t') \<in> set ds" "x = t' @ pseudo_suffix k'" for x k' t'
  proof
    assume "x \<in> fst ` set nr0"
    then have "split0 x \<in> split0 ` fst ` set nr0"
      by (rule imageI)
    moreover from that(1) ds have t': "CHR '':'' \<notin> set t'" "t' \<notin> split0 ` fst ` set nr0"
      by blast+
    moreover have "split0 x = t'"
      using that(2) t'(1) by (simp add: split0_pseudo_suffix)
    ultimately show False
      by simp
  qed
  have u_old: "?u \<notin> fst ` set nr0"
  proof
    assume "?u \<in> fst ` set nr0"
    then have "split0 ?u \<in> split0 ` fst ` set nr0"
      by (rule imageI)
    with t(1,2) show False
      by (simp add: split0_pseudo_suffix)
  qed
  have u_new: "?u \<notin> fst ` set ?new"
  proof
    assume "?u \<in> fst ` set ?new"
    then obtain e where "e \<in> set ?new" "?u = fst e"
      by auto
    with uglified_rule_key [of e nr0 ds] obtain k' t' where
      kt: "(k', t') \<in> set ds" "?u = t' @ pseudo_suffix k'"
      by auto
    moreover from kt(1) ds have "CHR '':'' \<notin> set t'"
      by blast
    ultimately have "split0 ?u = t'"
      by (simp add: split0_pseudo_suffix)
    with t(1) have "t = t'"
      by (simp add: split0_pseudo_suffix)
    with kt(1) t(3) show False
      by force
  qed
  have k_new: "k \<notin> fst ` set ?new"
  proof
    assume "k \<in> fst ` set ?new"
    then obtain e where "e \<in> set ?new" "k = fst e"
      by auto
    with uglified_rule_key [of e nr0 ds] obtain k' t' where
      "(k', t') \<in> set ds" "k = t' @ pseudo_suffix k'"
      by auto
    from new_not_old [OF this] kin show False
      by simp
  qed
  show "map_of (uglified_table nr0 ds) k = Some r"
    using k by (simp add: uglified_table_def map_add_Some_iff restr_conv')
  have "?u \<notin> fst ` set (uglified_table nr0 ds)"
    using u_old u_new by (auto simp: uglified_table_def AList.restrict_eq)
  then have "AList.update ?u (r\<lparr>out_selectors := [[Some ?u]]\<rparr>) (uglified_table nr0 ds)
      = ?old @ ?new @ [(?u, r\<lparr>out_selectors := [[Some ?u]]\<rparr>)]"
    by (simp add: update_new_key uglified_table_def)
  moreover have "AList.delete k (?old @ ?new @ [(?u, r\<lparr>out_selectors := [[Some ?u]]\<rparr>)])
      = AList.delete k ?old @ AList.delete k ?new @ AList.delete k [(?u, r\<lparr>out_selectors := [[Some ?u]]\<rparr>)]"
    by (simp add: AList.delete_eq)
  moreover have "AList.delete k ?old = AList.restrict (- fst ` set (ds @ [(k, t)])) nr0"
  proof -
    have "- fst ` set ds - {k} = - fst ` set (ds @ [(k, t)])"
      by auto
    with k(2) show ?thesis
      by simp
  qed
  moreover have "AList.delete k ?new = ?new"
    using k_new by simp
  moreover have "AList.delete k [(?u, r\<lparr>out_selectors := [[Some ?u]]\<rparr>)]
      = [(?u, r\<lparr>out_selectors := [[Some ?u]]\<rparr>)]"
    using u_old kin by auto
  moreover have "List.map_filter (uglified_rule nr0) (ds @ [(k, t)])
      = ?new @ [(?u, r\<lparr>out_selectors := [[Some ?u]]\<rparr>)]"
    using k(1) by (simp add: List.map_filter_def uglified_rule_def)
  ultimately show "AList.delete k
           (AList.update ?u (r\<lparr>out_selectors := [[Some ?u]]\<rparr>) (uglified_table nr0 ds))
         = uglified_table nr0 (ds @ [(k, t)])"
    by (simp add: uglified_table_def)
qed

section \<open>The uglifier pass\<close>

lemma set_first_selector_single:
  "out_selectors r = [[s]] \<Longrightarrow> set_first_selector u r = Inr (r\<lparr>out_selectors := [[Some u]]\<rparr>)"
  by (simp add: set_first_selector_def)

text \<open>
  One turn of the loop on a key that begins with a dot, from the state reached with the
  names \<open>ds\<close> drawn so far at counters below \<open>index\<close>.
\<close>

lemma uglify_key_step:
  assumes inj: "inj (\<lambda>i. fst (g i))"
    and fresh: "\<forall>i. CHR '':'' \<notin> set (fst (g i)) \<and> fst (g i) \<notin> split0 ` fst ` set nr0 \<and>
                  (\<forall>(mk, xs)\<in>set cm0. fst (g i) \<notin> set xs)"
    and proto: "\<forall>i. fst (g i) \<noteq> ''__proto__''"
    and table: "\<forall>(k, r)\<in>set nr0. out_selectors r = [[Some k]]"
    and cmap: "distinct (map fst cm0)" "\<forall>(mk, xs)\<in>set cm0. distinct xs"
    and k: "k \<in> fst ` set nr0" "startsWith k CHR ''.''" "k \<notin> fst ` set ds"
    and ds: "\<forall>(k', t')\<in>set ds. \<exists>j<index. t' = fst (g j)" "distinct (map snd ds)"
  shows "uglify_key g k (index, uglified_table nr0 ds, uglified_classMap cm0 ds) =
           Inr (snd (g index),
                uglified_table nr0 (ds @ [(k, fst (g index))]),
                uglified_classMap cm0 (ds @ [(k, fst (g index))]))"
proof -
  let ?t = "fst (g index)"
  let ?u = "?t @ pseudo_suffix k"
  from k(1) obtain r where r: "map_of nr0 k = Some r"
    by (metis map_of_eq_None_iff not_Some_eq)
  then have "(k, r) \<in> set nr0"
    by (rule map_of_SomeD)
  with table have sel: "out_selectors r = [[Some k]]"
    by auto
  have t1: "CHR '':'' \<notin> set ?t" and t2: "?t \<notin> split0 ` fst ` set nr0"
    using fresh by simp_all
  have t3: "?t \<notin> snd ` set ds"
  proof
    assume "?t \<in> snd ` set ds"
    then obtain k' where "(k', ?t) \<in> set ds"
      by auto
    with ds(1) obtain j where "j < index" "?t = fst (g j)"
      by blast
    with inj show False
      by (auto simp: inj_def)
  qed
  have drawn: "\<exists>j. t' = fst (g j)" if "(k', t') \<in> set ds" for k' t'
    using ds(1) that by blast
  have old: "\<forall>(k', t')\<in>set ds. CHR '':'' \<notin> set t' \<and> t' \<notin> split0 ` fst ` set nr0"
  proof (intro ballI, clarify)
    fix k' t'
    assume "(k', t') \<in> set ds"
    from drawn [OF this] obtain j where "t' = fst (g j)"
      by blast
    with fresh [rule_format, of j]
    show "CHR '':'' \<notin> set t' \<and> t' \<notin> split0 ` fst ` set nr0"
      by simp
  qed
  have base: "\<forall>(k', t')\<in>set ds. t' \<noteq> split0 k"
  proof (intro ballI, clarify)
    fix k'
    assume "(k', split0 k) \<in> set ds"
    with old have "split0 k \<notin> split0 ` fst ` set nr0"
      by blast
    with k(1) show False
      by blast
  qed
  have vals: "\<forall>(k', t')\<in>set ds. \<forall>(mk, xs)\<in>set cm0. t' \<notin> set xs"
  proof (intro ballI, clarify)
    fix k' t' mk xs
    assume "(k', t') \<in> set ds" and mem: "(mk, xs) \<in> set cm0" "t' \<in> set xs"
    from drawn [OF this(1)] obtain j where "t' = fst (g j)"
      by blast
    with fresh [rule_format, of j] mem show False
      by blast
  qed
  have look: "map_of (uglified_table nr0 ds) k = Some r"
    using r k(3) t1 t2 t3 old by (rule uglified_table_step(1))
  have tbl: "AList.delete k (AList.update ?u (r\<lparr>out_selectors := [[Some ?u]]\<rparr>) (uglified_table nr0 ds))
      = uglified_table nr0 (ds @ [(k, ?t)])"
    using r k(3) t1 t2 t3 old by (rule uglified_table_step(2))
  have cm: "fold (rename_in_classMap k ?t) (Object_keys (uglified_classMap cm0 ds))
      (uglified_classMap cm0 ds) = uglified_classMap cm0 (ds @ [(k, ?t)])"
    using cmap ds(2) base vals by (rule uglified_classMap_step)
  have "?u \<noteq> ''__proto__''"
  proof (cases "pseudo_suffix k = []")
    case True
    with proto show ?thesis
      by simp
  next
    case False
    then have "CHR '':'' \<in> set (pseudo_suffix k)"
      by (auto simp: pseudo_suffix_def split: if_splits)
    then have "CHR '':'' \<in> set ?u"
      by simp
    then show ?thesis
      by (rule colon_not_special(1))
  qed
  then have plain: "obj_set ?u v al = AList.update ?u v al" for v and al :: new_rules
    by (simp add: obj_set_def)
  obtain t i' where g: "g index = (t, i')"
    by (cases "g index")
  show ?thesis
    using k(2) look tbl cm set_first_selector_single [OF sel, of ?u] plain
    by (simp add: uglify_key_def g)
qed

lemma uglify_keys_run:
  assumes inj: "inj (\<lambda>i. fst (g i))" and adv: "\<forall>i. i < snd (g i)"
    and fresh: "\<forall>i. CHR '':'' \<notin> set (fst (g i)) \<and> fst (g i) \<notin> split0 ` fst ` set nr0 \<and>
                  (\<forall>(mk, xs)\<in>set cm0. fst (g i) \<notin> set xs)"
    and proto: "\<forall>i. fst (g i) \<noteq> ''__proto__''"
    and table: "\<forall>(k, r)\<in>set nr0. out_selectors r = [[Some k]]"
    and cmap: "distinct (map fst cm0)" "\<forall>(mk, xs)\<in>set cm0. distinct xs"
  shows "distinct ks \<Longrightarrow> set ks \<subseteq> fst ` set nr0 \<Longrightarrow> \<forall>k\<in>set ks. startsWith k CHR ''.'' \<Longrightarrow>
         set ks \<inter> fst ` set ds = {} \<Longrightarrow>
         \<forall>(k', t')\<in>set ds. \<exists>j<index. t' = fst (g j) \<Longrightarrow> distinct (map snd ds) \<Longrightarrow>
         \<exists>index'. forEach (uglify_key g) ks (index, uglified_table nr0 ds, uglified_classMap cm0 ds) =
           Inr (index', uglified_table nr0 (ds @ draw_names g ks index),
                uglified_classMap cm0 (ds @ draw_names g ks index))"
proof (induction ks arbitrary: ds index)
  case Nil
  then show ?case by simp
next
  case (Cons k ks)
  let ?t = "fst (g index)"
  let ?ds = "ds @ [(k, ?t)]"
  have k: "k \<in> fst ` set nr0" "startsWith k CHR ''.''" "k \<notin> fst ` set ds"
    using Cons.prems(2,3,4) by auto
  have step: "uglify_key g k (index, uglified_table nr0 ds, uglified_classMap cm0 ds) =
      Inr (snd (g index), uglified_table nr0 ?ds, uglified_classMap cm0 ?ds)"
    using inj fresh proto table cmap k Cons.prems(5,6) by (rule uglify_key_step)
  have lt: "index < snd (g index)"
    using adv by simp
  have new: "?t \<notin> snd ` set ds"
  proof
    assume "?t \<in> snd ` set ds"
    then obtain k' where "(k', ?t) \<in> set ds"
      by auto
    with Cons.prems(5) obtain j where "j < index" "?t = fst (g j)"
      by blast
    with inj show False
      by (auto simp: inj_def)
  qed
  have p1: "distinct ks" and p2: "set ks \<subseteq> fst ` set nr0"
    and p3: "\<forall>k\<in>set ks. startsWith k CHR ''.''"
    using Cons.prems(1,2,3) by simp_all
  have p4: "set ks \<inter> fst ` set ?ds = {}"
    using Cons.prems(1,4) by auto
  have p5: "\<forall>(k', t')\<in>set ?ds. \<exists>j<snd (g index). t' = fst (g j)"
  proof -
    have "\<exists>j<snd (g index). t' = fst (g j)" if "(k', t') \<in> set ?ds" for k' t'
    proof (cases "(k', t') \<in> set ds")
      case True
      with Cons.prems(5) obtain j where "j < index" "t' = fst (g j)"
        by blast
      with lt show ?thesis
        by (intro exI [of _ j]) simp
    next
      case False
      with that have "t' = ?t"
        by simp
      with lt show ?thesis
        by blast
    qed
    then show ?thesis
      by blast
  qed
  have p6: "distinct (map snd ?ds)"
    using Cons.prems(6) new by simp
  from Cons.IH [OF p1 p2 p3 p4 p5 p6] obtain index' where
    "forEach (uglify_key g) ks (snd (g index), uglified_table nr0 ?ds, uglified_classMap cm0 ?ds) =
       Inr (index', uglified_table nr0 (?ds @ draw_names g ks (snd (g index))),
            uglified_classMap cm0 (?ds @ draw_names g ks (snd (g index))))"
    by blast
  with step k(2) show ?case
    by simp
qed

lemma uglified_table_Nil: "uglified_table nr0 [] = nr0"
  by (simp add: uglified_table_def AList.restrict_eq List.map_filter_simps)

lemma uglified_classMap_Nil: "uglified_classMap cm0 [] = cm0"
proof -
  have "rename_value [] = (\<lambda>v. v)"
    by (intro ext) (simp add: rename_value_def)
  then show ?thesis
    by (simp add: uglified_classMap_def case_prod_unfold)
qed

text \<open>
  The pass on a table as atomization builds it (distinct keys, every rule with its key as
  its only selector) and a deduplicated class map, for a generator whose names are
  injective in the counter, whose counter advances, and whose names have no colon, are
  not \<open>__proto__\<close> and differ from every key of the table up to its first colon and from
  every value of the class map.
\<close>

lemma uglify_pass_run:
  assumes inj: "inj (\<lambda>index. fst (cssUglifier index))"
    and adv: "\<forall>index. index < snd (cssUglifier index)"
    and fresh: "\<forall>index. CHR '':'' \<notin> set (fst (cssUglifier index)) \<and>
                  fst (cssUglifier index) \<notin> split0 ` fst ` set newRules \<and>
                  (\<forall>(mapKey, xs)\<in>set classMap. fst (cssUglifier index) \<notin> set xs)"
    and proto: "\<forall>index. fst (cssUglifier index) \<noteq> ''__proto__''"
    and table: "distinct (map fst newRules)" "\<forall>(key, r)\<in>set newRules. out_selectors r = [[Some key]]"
    and cmap: "distinct (map fst classMap)" "\<forall>(mapKey, xs)\<in>set classMap. distinct xs"
  shows "distinct (map snd (uglified_names cssUglifier newRules))"
    and "map fst (uglified_names cssUglifier newRules) =
      filter (\<lambda>key. startsWith key CHR ''.'') (map fst newRules)"
    and "uglify_pass cssUglifier newRules classMap =
      Inr (uglified_table newRules (uglified_names cssUglifier newRules),
           uglified_classMap classMap (uglified_names cssUglifier newRules))"
    and "\<forall>(key, name)\<in>set (uglified_names cssUglifier newRules).
       \<forall>(mapKey, xs)\<in>set (uglified_classMap classMap (uglified_names cssUglifier newRules)).
         split0 key \<notin> set xs"
proof -
  let ?dotted = "\<lambda>key. startsWith key CHR ''.''"
  let ?ks = "filter ?dotted (map fst newRules)"
  let ?names = "uglified_names cssUglifier newRules"
  have names: "?names = draw_names cssUglifier ?ks 0"
    unfolding uglified_names_def
    by (subst draw_names_filter) (simp only: filter_class_Object_keys)
  show d: "distinct (map snd ?names)"
    unfolding uglified_names_def using inj adv by (rule distinct_draw_names)
  show keys: "map fst ?names = ?ks"
    unfolding uglified_names_def by (simp add: keys_draw_names filter_class_Object_keys)
  have "\<exists>index'. forEach (uglify_key cssUglifier) ?ks
          (0, uglified_table newRules [], uglified_classMap classMap []) =
        Inr (index', uglified_table newRules ([] @ draw_names cssUglifier ?ks 0),
             uglified_classMap classMap ([] @ draw_names cssUglifier ?ks 0))"
    using inj adv fresh proto table(2) cmap
  proof (rule uglify_keys_run)
    show "distinct ?ks"
      using table(1) by (rule distinct_filter)
    show "set ?ks \<subseteq> fst ` set newRules"
      by auto
    show "\<forall>k\<in>set ?ks. ?dotted k"
      by simp
  qed simp_all
  then obtain index' where run:
    "forEach (uglify_key cssUglifier) ?ks (0, newRules, classMap) =
       Inr (index', uglified_table newRules ?names, uglified_classMap classMap ?names)"
    by (auto simp: uglified_table_Nil uglified_classMap_Nil names)
  have "forEach (uglify_key cssUglifier) (Object_keys newRules) (0, newRules, classMap) =
      forEach (uglify_key cssUglifier) (filter ?dotted (Object_keys newRules)) (0, newRules, classMap)"
    by (rule forEach_uglify_key_filter)
  also have "\<dots> = forEach (uglify_key cssUglifier) ?ks (0, newRules, classMap)"
    by (simp only: filter_class_Object_keys)
  finally have "forEach (uglify_key cssUglifier) (Object_keys newRules) (0, newRules, classMap) =
       Inr (index', uglified_table newRules ?names, uglified_classMap classMap ?names)"
    using run by simp
  then show "uglify_pass cssUglifier newRules classMap =
      Inr (uglified_table newRules ?names, uglified_classMap classMap ?names)"
    by (simp add: uglify_pass_def)
  show "\<forall>(key, name)\<in>set ?names. \<forall>(mapKey, xs)\<in>set (uglified_classMap classMap ?names).
      split0 key \<notin> set xs"
  proof (intro ballI, clarify)
    fix key name mapKey xs
    assume kn: "(key, name) \<in> set ?names"
      and e: "(mapKey, xs) \<in> set (uglified_classMap classMap ?names)" and mem: "split0 key \<in> set xs"
    from e mem obtain v where v: "split0 key = rename_value ?names v"
      by (auto simp: uglified_classMap_def)
    from kn have "key \<in> set (map fst ?names)"
      by force
    then have key: "key \<in> fst ` set newRules"
      unfolding keys by auto
    show False
    proof (cases ?names v rule: rename_value_cases)
      case kept
      with v kn show ?thesis
        by auto
    next
      case (renamed k)
      with v have "(k, split0 key) \<in> set (draw_names cssUglifier (Object_keys newRules) 0)"
        by (simp add: uglified_names_def)
      from draw_names_counter [OF adv this] obtain j where j: "split0 key = fst (cssUglifier j)"
        by blast
      have "split0 key \<in> split0 ` fst ` set newRules"
        using key by (rule imageI)
      moreover have "fst (cssUglifier j) \<notin> split0 ` fst ` set newRules"
        using fresh [rule_format, of j] by simp
      ultimately show ?thesis
        using j by simp
    qed
  qed
qed

section \<open>Uglification of a stylesheet\<close>

text \<open>The class map that atomization builds has distinct keys.\<close>

lemma updateClassMap_distinct:
  "updateClassMap cm sels n = Inr cm' \<Longrightarrow> distinct (map fst cm) \<Longrightarrow> distinct (map fst cm')"
proof (induction sels arbitrary: cm)
  case Nil
  then show ?case by simp
next
  case (Cons sel sels)
  from Cons.prems(1) obtain c cs t where
    rest: "updateClassMap
       (AList.update (split0 t) (classMap_entries cm (split0 t) @ [split0 n]) cm)
       sels n = Inr cm'"
    by (rule updateClassMap_Inr)
  from Cons.IH [OF rest] Cons.prems(2) show ?case
    by (simp add: distinct_update)
qed

lemma atomize_rules_distinct:
  assumes "forEach (atomize_rule E toUpperCase opts) rs st = Inr st'"
    and "distinct (map fst (fst st))"
  shows "distinct (map fst (fst st'))"
  using assms
proof (rule forEach_preserves)
  fix r s s'
  assume s: "distinct (map fst (fst s))" and step: "atomize_rule E toUpperCase opts r s = Inr s'"
  obtain cm nr cm' nr' where st: "s = (cm, nr)" "s' = (cm', nr')"
    by (cases s, cases s')
  from step [unfolded st] show "distinct (map fst (fst s'))"
  proof (cases rule: atomize_rule_cases)
    case (non_class c)
    with s st show ?thesis by simp
  next
    case (atomized c)
    from atomized(3) s [unfolded st] have "distinct (map fst (fst (cm', nr')))"
    proof (rule forEach_preserves)
      fix d s1 s2
      assume s1: "distinct (map fst (fst s1))"
        and d: "atomize_declaration E toUpperCase opts (recursivelyRemovePosition_rule r) d s1 = Inr s2"
      obtain cm1 nr1 cm2 nr2 where p: "s1 = (cm1, nr1)" "s2 = (cm2, nr2)"
        by (cases s1, cases s2)
      from atomize_declaration_Inr [OF d [unfolded p]] obtain key where
        "updateClassMap cm1 (rule_selectors (recursivelyRemovePosition_rule r)) key = Inr cm2"
        by blast
      from updateClassMap_distinct [OF this] s1 show "distinct (map fst (fst s2))"
        by (simp add: p)
    qed
    then show ?thesis
      by (simp add: st)
  qed
qed

text \<open>Every value of the class map is a key of the table up to its first colon.\<close>

lemma atomize_rules_values_written:
  assumes "forEach (atomize_rule E toUpperCase opts) rs st = Inr st'"
    and "v \<in> set (classMap_entries (fst st') k)"
  shows "v \<in> set (classMap_entries (fst st) k) \<or>
         (\<exists>r\<in>set rs. \<exists>key\<in>set (rule_keys E toUpperCase opts r). v = split0 key)"
  using assms
proof (induction rs arbitrary: st)
  case Nil
  then show ?case by simp
next
  case (Cons r rs)
  from Cons.prems obtain st1 where
    step: "atomize_rule E toUpperCase opts r st = Inr st1" and
    rest: "forEach (atomize_rule E toUpperCase opts) rs st1 = Inr st'"
    by (auto split: sum.splits)
  obtain cm nr cm1 nr1 where s: "st = (cm, nr)" "st1 = (cm1, nr1)"
    by (cases st, cases st1)
  from Cons.IH [OF rest Cons.prems(2)] show ?case
  proof
    assume v: "v \<in> set (classMap_entries (fst st1) k)"
    from step [unfolded s] show ?thesis
    proof (cases rule: atomize_rule_cases)
      case (non_class c)
      with v s show ?thesis by simp
    next
      case (atomized c)
      from atomize_declarations_values [OF atomized(3)] v s
      consider "v \<in> set (classMap_entries cm k)"
        | d key where "d \<in> set (rule_declarations (recursivelyRemovePosition_rule r))"
            "encoded_name E toUpperCase opts (recursivelyRemovePosition_rule r) d = Inr key"
            "v = split0 key"
        by fastforce
      then show ?thesis
      proof cases
        case 1
        with s show ?thesis by simp
      next
        case 2
        from rule_writes_atomized [OF atomized(1,2) 2(1,2)]
        have "key \<in> set (rule_keys E toUpperCase opts r)"
          by (force simp: rule_keys_def)
        with 2(3) show ?thesis
          by auto
      qed
    qed
  next
    assume "\<exists>r\<in>set rs. \<exists>key\<in>set (rule_keys E toUpperCase opts r). v = split0 key"
    then show ?thesis
      by auto
  qed
qed

text \<open>
  C6, as stated, fails: injectivity in the counter does not keep the names apart from the
  keys of the table. The generator \<open>colliding_uglifier\<close> is injective and returns the next
  counter, but its first name is the encoded name of \<open>margin: 0\<close>. On
  \<open>.a{color:red;margin:0}\<close> the rule for \<open>color: red\<close> is stored over the rule for
  \<open>margin: 0\<close>, which is lost, and the class map keeps the old key
  \<open>.rp__margin__--COLON0\<close> next to the short name \<open>.rp__a\<close>.
\<close>

theorem colliding_generator_counterexample:
  "inj (fst \<circ> colliding_uglifier) \<and>
   css (cssParser_stripping sample_parse sample_selectorParse) sample_encoder sample_toUpperCase
       colliding_uglifier sample_stringify None (Some ''.a{color:red;margin:0}'') False [] =
     (Inr \<lparr>res_classMap = [(''.a'', [''.rp__color__--COLONred'', ''.rp__margin__--COLON0''])],
           res_output = ''.rp__color__--COLONred{color:red;}.rp__margin__--COLON0{margin:0;}''\<rparr>,
      []) \<and>
   css (cssParser_stripping sample_parse sample_selectorParse) sample_encoder sample_toUpperCase
       colliding_uglifier sample_stringify None (Some ''.a{color:red;margin:0}'') True [] =
     (Inr \<lparr>res_classMap = [(''.a'', [''.rp__a'', ''.rp__margin__--COLON0''])],
           res_output = ''.rp__a{color:red;}''\<rparr>, [])"
proof (intro conjI)
  show "inj (fst \<circ> colliding_uglifier)"
  proof (rule injI)
    fix i j
    assume eq: "(fst \<circ> colliding_uglifier) i = (fst \<circ> colliding_uglifier) j"
    show "i = j"
    proof (cases "i = 0")
      case True
      with eq show ?thesis
        by (cases j) (simp_all add: colliding_uglifier_def)
    next
      case False
      then obtain i' where i: "i = Suc i'"
        by (cases i) simp_all
      show ?thesis
      proof (cases j)
        case 0
        with eq i show ?thesis
          by (simp add: colliding_uglifier_def)
      next
        case (Suc j')
        with eq i have "replicate i' CHR ''a'' = replicate j' CHR ''a''"
          by (simp add: colliding_uglifier_def)
        then have "length (replicate i' CHR ''a'') = length (replicate j' CHR ''a'')"
          by (rule arg_cong)
        with i Suc show ?thesis
          by simp
      qed
    qed
  qed
  show "css (cssParser_stripping sample_parse sample_selectorParse) sample_encoder sample_toUpperCase
       colliding_uglifier sample_stringify None (Some ''.a{color:red;margin:0}'') False [] =
     (Inr \<lparr>res_classMap = [(''.a'', [''.rp__color__--COLONred'', ''.rp__margin__--COLON0''])],
           res_output = ''.rp__color__--COLONred{color:red;}.rp__margin__--COLON0{margin:0;}''\<rparr>,
      [])"
    by (simp add: css_defs parser_defs sample_defs engine_defs)
  show "css (cssParser_stripping sample_parse sample_selectorParse) sample_encoder sample_toUpperCase
       colliding_uglifier sample_stringify None (Some ''.a{color:red;margin:0}'') True [] =
     (Inr \<lparr>res_classMap = [(''.a'', [''.rp__a'', ''.rp__margin__--COLON0''])],
           res_output = ''.rp__a{color:red;}''\<rparr>, [])"
    by (simp add: css_defs parser_defs sample_defs engine_defs uglify_defs colliding_uglifier_def)
qed

text \<open>
  \<open>css\<close> with and without uglification, on a well-formed stylesheet with plain keys and
  with a generator that never collides with the keys that the stylesheet assigns.
\<close>

lemma uglify_pass_distinct:
  assumes "uglify_pass g nr cm = Inr (nr', cm')" and "distinct (map fst nr)"
  shows "distinct (map fst nr')"
proof -
  from assms(1) obtain index' where
    run: "forEach (uglify_key g) (Object_keys nr) (0, nr, cm) = Inr (index', nr', cm')"
    by (auto simp: uglify_pass_def split: sum.splits)
  have "distinct (map fst (fst (snd (index', nr', cm'))))"
    using run
  proof (rule forEach_preserves)
    show "distinct (map fst (fst (snd (0 :: nat, nr, cm))))"
      using assms(2) by simp
    fix k and s s' :: "nat \<times> new_rules \<times> class_map"
    assume d: "distinct (map fst (fst (snd s)))" and step: "uglify_key g k s = Inr s'"
    obtain i t c where s: "s = (i, t, c)"
      by (cases s)
    have upd: "distinct (map fst (AList.delete k (obj_set u r t)))" for u r
      using d by (simp add: s obj_set_def distinct_update distinct_delete)
    from step show "distinct (map fst (fst (snd s')))"
      using d upd
      by (auto simp: uglify_key_def s Let_def split: if_splits option.splits sum.splits prod.splits)
  qed
  then show ?thesis
    by simp
qed

lemma css_uglified:
  assumes parse: "cssParser (options_or_empty options0) (input_or_empty input0)
                    = (Inr (Some (Rules rules)), reports)"
    and wf: "list_all well_formed_rule rules"
    and plain: "plain_keys E toUpperCase (options_or_empty options0) rules"
    and contract: "never_collides cssUglifier
                     (set (concat (map (rule_keys E toUpperCase (options_or_empty options0)) rules)))"
  obtains classMap0 newRules where
    "forEach (atomize_rule E toUpperCase (options_or_empty options0)) rules ([], [])
       = Inr (classMap0, newRules)"
    "css cssParser E toUpperCase cssUglifier S options0 input0 False log =
       (Inr \<lparr>res_classMap = removeIdenticalProperties classMap0,
             res_output = S (output_rules newRules)\<rparr>, log @ reports)"
    "css cssParser E toUpperCase cssUglifier S options0 input0 True log =
       (Inr \<lparr>res_classMap =
               uglified_classMap (removeIdenticalProperties classMap0)
                 (uglified_names cssUglifier newRules),
             res_output =
               S (output_rules (uglified_table newRules (uglified_names cssUglifier newRules)))\<rparr>,
        log @ reports)"
    "map fst (uglified_names cssUglifier newRules) =
       filter (\<lambda>key. startsWith key CHR ''.'') (map fst newRules)"
    "distinct (map snd (uglified_names cssUglifier newRules))"
    "\<forall>(key, name)\<in>set (uglified_names cssUglifier newRules).
       \<forall>(mapKey, xs)\<in>set (uglified_classMap (removeIdenticalProperties classMap0)
                             (uglified_names cssUglifier newRules)).
         split0 key \<notin> set xs"
    "\<forall>(mapKey, xs)\<in>set (uglified_classMap (removeIdenticalProperties classMap0)
                           (uglified_names cssUglifier newRules)).
       \<forall>v\<in>set xs. CHR '':'' \<notin> set v"
    "distinct (map fst newRules)"
    "\<And>k. map_of newRules k =
       map_of (rev (concat (map (rule_writes E toUpperCase (options_or_empty options0)) rules))) k"
    "\<And>k v. map_of newRules k = Some v \<Longrightarrow> out_selectors v = [[Some k]]"
    "distinct (map fst (uglified_table newRules (uglified_names cssUglifier newRules)))"
proof -
  let ?opts = "options_or_empty options0"
  let ?keys = "set (concat (map (rule_keys E toUpperCase ?opts) rules))"
  from contract have inj: "inj (\<lambda>index. fst (cssUglifier index))"
    and adv: "\<forall>index. index < snd (cssUglifier index)"
    and name: "\<And>index. CHR '':'' \<notin> set (fst (cssUglifier index))"
      "\<And>index. fst (cssUglifier index) \<noteq> ''__proto__''"
      "\<And>index. fst (cssUglifier index) \<notin> split0 ` ?keys"
    by (simp_all add: never_collides_def)
  from wf plain obtain cm nr where
    run: "forEach (atomize_rule E toUpperCase ?opts) rules ([], []) = Inr (cm, nr)"
    and at: "atomize E toUpperCase cssUglifier ?opts (Rules rules) False
               = Inr (removeIdenticalProperties cm, output_rules nr)"
    and strip: "recursivelyRemovePosition_newRules nr = Inr nr"
    and dist: "distinct (map fst nr)"
    and look: "\<And>k. map_of nr k = map_of (rev (concat (map (rule_writes E toUpperCase ?opts) rules))) k"
    and osel: "\<And>k v. map_of nr k = Some v \<Longrightarrow> out_selectors v = [[Some k]]"
    by (rule atomize_plain [where E = E and toUpperCase = toUpperCase and U = cssUglifier
          and opts = ?opts]) blast
  let ?cm = "removeIdenticalProperties cm"
  let ?names = "uglified_names cssUglifier nr"
  have keys: "fst ` set nr \<subseteq> ?keys"
    using atomize_rules_table_facts(3) [OF run] by blast
  have vals: "\<exists>key. key \<in> ?keys \<and> v = split0 key" if "(mk, xs) \<in> set ?cm" and "v \<in> set xs" for mk xs v
  proof -
    have "distinct (map fst ?cm)"
      using atomize_rules_distinct [OF run] by (simp add: keys_removeIdenticalProperties)
    with that(1) have "map_of ?cm mk = Some xs"
      by simp
    with that(2) have "v \<in> set (classMap_entries ?cm mk)"
      by (simp add: classMap_entries_def)
    then have "v \<in> set (classMap_entries (fst (cm, nr)) mk)"
      by (simp add: classMap_entries_removeIdenticalProperties)
    from atomize_rules_values_written [OF run this] show ?thesis
      by (auto simp: classMap_entries_def)
  qed
  have fresh: "\<forall>index. CHR '':'' \<notin> set (fst (cssUglifier index)) \<and>
                  fst (cssUglifier index) \<notin> split0 ` fst ` set nr \<and>
                  (\<forall>(mapKey, xs)\<in>set ?cm. fst (cssUglifier index) \<notin> set xs)"
  proof (intro allI conjI)
    fix index
    show "CHR '':'' \<notin> set (fst (cssUglifier index))"
      by (rule name(1))
    show "fst (cssUglifier index) \<notin> split0 ` fst ` set nr"
      using name(3) [of index] keys by blast
    show "\<forall>(mapKey, xs)\<in>set ?cm. fst (cssUglifier index) \<notin> set xs"
    proof (intro ballI, clarify)
      fix mk xs
      assume "(mk, xs) \<in> set ?cm" and "fst (cssUglifier index) \<in> set xs"
      from vals [OF this] name(3) [of index] show False
        by blast
    qed
  qed
  have proto: "\<forall>index. fst (cssUglifier index) \<noteq> ''__proto__''"
    using name(2) by simp
  have table: "\<forall>(key, r)\<in>set nr. out_selectors r = [[Some key]]"
  proof (intro ballI, clarify)
    fix key r
    assume "(key, r) \<in> set nr"
    with dist have "map_of nr key = Some r"
      by simp
    then show "out_selectors r = [[Some key]]"
      by (rule osel)
  qed
  have cmap: "distinct (map fst ?cm)" "\<forall>(mapKey, xs)\<in>set ?cm. distinct xs"
  proof -
    show d: "distinct (map fst ?cm)"
      using atomize_rules_distinct [OF run] by (simp add: keys_removeIdenticalProperties)
    show "\<forall>(mapKey, xs)\<in>set ?cm. distinct xs"
    proof (intro ballI, clarify)
      fix mk xs
      assume "(mk, xs) \<in> set ?cm"
      with d have "map_of ?cm mk = Some xs"
        by simp
      then show "distinct xs"
        by (auto simp: map_of_removeIdenticalProperties)
    qed
  qed
  note pass = uglify_pass_run [OF inj adv fresh proto dist table cmap]
  have "atomize E toUpperCase cssUglifier ?opts (Rules rules) True =
      Inr (uglified_classMap ?cm ?names, output_rules (uglified_table nr ?names))"
    using run strip pass(3) by (simp add: atomize_def)
  with parse have true: "css cssParser E toUpperCase cssUglifier S options0 input0 True log =
      (Inr \<lparr>res_classMap = uglified_classMap ?cm ?names,
            res_output = S (output_rules (uglified_table nr ?names))\<rparr>, log @ reports)"
    by (rule css_atomized)
  have false: "css cssParser E toUpperCase cssUglifier S options0 input0 False log =
      (Inr \<lparr>res_classMap = ?cm, res_output = S (output_rules nr)\<rparr>, log @ reports)"
    using parse at by (rule css_atomized)
  have colon: "\<forall>(mapKey, xs)\<in>set (uglified_classMap ?cm ?names). \<forall>v\<in>set xs. CHR '':'' \<notin> set v"
  proof (intro ballI, clarify)
    fix mk ys v
    assume e: "(mk, ys) \<in> set (uglified_classMap ?cm ?names)" and v: "v \<in> set ys"
      and c: "CHR '':'' \<in> set v"
    from e v obtain xs w where w: "(mk, xs) \<in> set ?cm" "w \<in> set xs" "v = rename_value ?names w"
      by (auto simp: uglified_classMap_def)
    show False
    proof (cases ?names w rule: rename_value_cases)
      case kept
      with w(3) vals [OF w(1,2)] c colon_notin_split0 show ?thesis
        by auto
    next
      case (renamed k)
      with w(3) have "(k, v) \<in> set (draw_names cssUglifier (Object_keys nr) 0)"
        by (simp add: uglified_names_def)
      from draw_names_counter [OF adv this] obtain j where "v = fst (cssUglifier j)"
        by blast
      with name(1) [of j] c show ?thesis
        by simp
    qed
  qed
  have dist': "distinct (map fst (uglified_table nr ?names))"
    using pass(3) dist by (rule uglify_pass_distinct)
  from run false true pass(2) pass(1) pass(4) colon dist look osel dist' show thesis
    by (rule that)
qed

text \<open>
  C6, amended. Take a well-formed stylesheet with plain keys and a generator that never
  collides with the keys that the stylesheet assigns: its names are injective in the
  counter, the counter it returns is beyond the one it was given, and no name contains a
  colon, is \<open>__proto__\<close>, or equals such a key up to its first colon. Then \<open>css\<close> returns
  with and without uglification, and the result with uglification is the result without,
  renamed: one name is drawn for every key of the table that begins with a dot, in table
  order, and the names drawn are pairwise distinct; every value of the class map that is
  an old key up to its first colon is replaced by the name drawn for that key, so that no
  such value remains; every renamed rule is handed to the serializer under its short name
  followed by the old key from its first colon onward; and no value of the class map
  contains a colon.
\<close>

theorem uglify_pass_names:
  assumes parse: "cssParser (options_or_empty options0) (input_or_empty input0)
                    = (Inr (Some (Rules rules)), reports)"
    and wf: "list_all well_formed_rule rules"
    and plain: "plain_keys E toUpperCase (options_or_empty options0) rules"
    and contract: "never_collides cssUglifier
                     (set (concat (map (rule_keys E toUpperCase (options_or_empty options0)) rules)))"
  shows "\<exists>classMap0 newRules.
       forEach (atomize_rule E toUpperCase (options_or_empty options0)) rules ([], [])
         = Inr (classMap0, newRules) \<and>
       css cssParser E toUpperCase cssUglifier S options0 input0 False log =
         (Inr \<lparr>res_classMap = removeIdenticalProperties classMap0,
               res_output = S (output_rules newRules)\<rparr>, log @ reports) \<and>
       css cssParser E toUpperCase cssUglifier S options0 input0 True log =
         (Inr \<lparr>res_classMap =
                 uglified_classMap (removeIdenticalProperties classMap0)
                   (uglified_names cssUglifier newRules),
               res_output =
                 S (output_rules (uglified_table newRules (uglified_names cssUglifier newRules)))\<rparr>,
          log @ reports) \<and>
       map fst (uglified_names cssUglifier newRules) =
         filter (\<lambda>key. startsWith key CHR ''.'') (map fst newRules) \<and>
       distinct (map snd (uglified_names cssUglifier newRules)) \<and>
       (\<forall>(key, name)\<in>set (uglified_names cssUglifier newRules).
          \<forall>(mapKey, xs)\<in>set (uglified_classMap (removeIdenticalProperties classMap0)
                                (uglified_names cssUglifier newRules)).
            before_colon key \<notin> set xs) \<and>
       (\<forall>(mapKey, xs)\<in>set (uglified_classMap (removeIdenticalProperties classMap0)
                             (uglified_names cssUglifier newRules)).
          \<forall>v\<in>set xs. CHR '':'' \<notin> set v)"
proof -
  from parse wf plain contract obtain cm nr where
    run: "forEach (atomize_rule E toUpperCase (options_or_empty options0)) rules ([], [])
       = Inr (cm, nr)"
    and false: "css cssParser E toUpperCase cssUglifier S options0 input0 False log =
       (Inr \<lparr>res_classMap = removeIdenticalProperties cm,
             res_output = S (output_rules nr)\<rparr>, log @ reports)"
    and true: "css cssParser E toUpperCase cssUglifier S options0 input0 True log =
       (Inr \<lparr>res_classMap =
               uglified_classMap (removeIdenticalProperties cm) (uglified_names cssUglifier nr),
             res_output =
               S (output_rules (uglified_table nr (uglified_names cssUglifier nr)))\<rparr>,
        log @ reports)"
    and keys: "map fst (uglified_names cssUglifier nr) =
       filter (\<lambda>key. startsWith key CHR ''.'') (map fst nr)"
    and names: "distinct (map snd (uglified_names cssUglifier nr))"
    and gone: "\<forall>(key, name)\<in>set (uglified_names cssUglifier nr).
       \<forall>(mapKey, xs)\<in>set (uglified_classMap (removeIdenticalProperties cm)
                             (uglified_names cssUglifier nr)).
         split0 key \<notin> set xs"
    and colon: "\<forall>(mapKey, xs)\<in>set (uglified_classMap (removeIdenticalProperties cm)
                           (uglified_names cssUglifier nr)).
       \<forall>v\<in>set xs. CHR '':'' \<notin> set v"
    by (rule css_uglified [where S = S and log = log])
  from gone have gone': "\<forall>(key, name)\<in>set (uglified_names cssUglifier nr).
       \<forall>(mapKey, xs)\<in>set (uglified_classMap (removeIdenticalProperties cm)
                             (uglified_names cssUglifier nr)).
         before_colon key \<notin> set xs"
    by simp
  from run false true keys names gone' colon show ?thesis
    by (intro exI conjI)
qed

lemma sample_three_parsed:
  "cssParser_stripping sample_parse sample_selectorParse (options_or_empty None)
     (input_or_empty (Some ''.a{color:red}.a:hover{color:blue}div{margin:0}'')) =
   (Inr (Some (Rules
      [\<lparr>rule_selectors =
          [[\<lparr>comp_type = ''attribute'', comp_name = Some ''class'',
             comp_original = Some ''.a''\<rparr>]],
        rule_declarations =
          [\<lparr>property = ''color'', decl_value = ''red'', decl_position = None\<rparr>],
        rule_position = None\<rparr>,
       \<lparr>rule_selectors =
          [[\<lparr>comp_type = ''attribute'', comp_name = Some ''class'',
             comp_original = Some ''.a:hover''\<rparr>,
            \<lparr>comp_type = ''pseudo'', comp_name = Some ''hover'', comp_original = None\<rparr>]],
        rule_declarations =
          [\<lparr>property = ''color'', decl_value = ''blue'', decl_position = None\<rparr>],
        rule_position = None\<rparr>,
       \<lparr>rule_selectors =
          [[\<lparr>comp_type = ''tag'', comp_name = Some ''div'', comp_original = Some ''div''\<rparr>]],
        rule_declarations =
          [\<lparr>property = ''margin'', decl_value = ''0'', decl_position = None\<rparr>],
        rule_position = None\<rparr>])), [])"
  by (simp add: parser_defs sample_defs options_or_empty_def input_or_empty_def)

theorem uglify_pass_names_witness:
  "css (cssParser_stripping sample_parse sample_selectorParse) sample_encoder sample_toUpperCase
       sample_uglifier sample_stringify None
       (Some ''.a{color:red}.a:hover{color:blue}div{margin:0}'') True [] =
     (Inr \<lparr>res_classMap = [(''.a'', [''.rp__a'', ''.rp__aa''])],
           res_output = ''div{margin:0;}.rp__a{color:red;}.rp__aa:hover{color:blue;}''\<rparr>, [])"
proof -
  let ?r1 = "\<lparr>rule_selectors =
          [[\<lparr>comp_type = ''attribute'', comp_name = Some ''class'',
             comp_original = Some ''.a''\<rparr>]],
        rule_declarations =
          [\<lparr>property = ''color'', decl_value = ''red'', decl_position = None\<rparr>],
        rule_position = None\<rparr>"
  let ?r2 = "\<lparr>rule_selectors =
          [[\<lparr>comp_type = ''attribute'', comp_name = Some ''class'',
             comp_original = Some ''.a:hover''\<rparr>,
            \<lparr>comp_type = ''pseudo'', comp_name = Some ''hover'', comp_original = None\<rparr>]],
        rule_declarations =
          [\<lparr>property = ''color'', decl_value = ''blue'', decl_position = None\<rparr>],
        rule_position = None\<rparr>"
  let ?r3 = "\<lparr>rule_selectors =
          [[\<lparr>comp_type = ''tag'', comp_name = Some ''div'', comp_original = Some ''div''\<rparr>]],
        rule_declarations =
          [\<lparr>property = ''margin'', decl_value = ''0'', decl_position = None\<rparr>],
        rule_position = None\<rparr>"
  let ?rules = "[?r1, ?r2, ?r3]"
  let ?nr = "[(''.rp__color__--COLONred'',
       \<lparr>out_selectors = [[Some ''.rp__color__--COLONred'']],
        out_declarations = [\<lparr>property = ''color'', decl_value = ''red'', decl_position = None\<rparr>]\<rparr>),
      (''.rp__color__--COLONblue___-HOVER:hover'',
       \<lparr>out_selectors = [[Some ''.rp__color__--COLONblue___-HOVER:hover'']],
        out_declarations = [\<lparr>property = ''color'', decl_value = ''blue'', decl_position = None\<rparr>]\<rparr>),
      (''div'',
       \<lparr>out_selectors = [[Some ''div'']],
        out_declarations = [\<lparr>property = ''margin'', decl_value = ''0'', decl_position = None\<rparr>]\<rparr>)]"
  let ?cm = "[(''.a'', [''.rp__color__--COLONred'', ''.rp__color__--COLONblue___-HOVER''])]"
  have wf: "list_all well_formed_rule ?rules"
    and plain: "plain_keys sample_encoder sample_toUpperCase (options_or_empty None) ?rules"
    by (simp_all add: wf_defs property_key_def)
  have keys: "set (concat (map (rule_keys sample_encoder sample_toUpperCase (options_or_empty None)) ?rules))
      = {''.rp__color__--COLONred'', ''.rp__color__--COLONblue___-HOVER:hover'', ''div''}"
    by (simp add: wf_defs property_key_def)
  have contract: "never_collides sample_uglifier
      (set (concat (map (rule_keys sample_encoder sample_toUpperCase (options_or_empty None)) ?rules)))"
    unfolding keys never_collides_def
  proof (intro conjI allI)
    show "inj (\<lambda>index. fst (sample_uglifier index))"
    proof (rule injI)
      fix i j
      assume "fst (sample_uglifier i) = fst (sample_uglifier j)"
      then have "replicate i CHR ''a'' = replicate j CHR ''a''"
        by (simp add: sample_uglifier_def)
      then have "length (replicate i CHR ''a'') = length (replicate j CHR ''a'')"
        by (rule arg_cong)
      then show "i = j"
        by simp
    qed
    show "index < snd (sample_uglifier index)" for index
      by (simp add: sample_uglifier_def)
    show "CHR '':'' \<notin> set (fst (sample_uglifier index))" for index
      by (simp add: sample_uglifier_def)
    show "fst (sample_uglifier index) \<noteq> ''__proto__''" for index
      by (simp add: sample_uglifier_def)
    show "fst (sample_uglifier index) \<notin> before_colon `
        {''.rp__color__--COLONred'', ''.rp__color__--COLONblue___-HOVER:hover'', ''div''}" for index
      by (simp add: sample_uglifier_def split0_def)
  qed
  have run: "forEach (atomize_rule sample_encoder sample_toUpperCase (options_or_empty None)) ?rules
      ([], []) = Inr (?cm, ?nr)"
    by (simp add: engine_defs sample_defs options_or_empty_def)
  have dedup: "removeIdenticalProperties ?cm = ?cm"
    by (simp add: engine_defs)
  have names: "uglified_names sample_uglifier ?nr =
      [(''.rp__color__--COLONred'', ''.rp__a''),
       (''.rp__color__--COLONblue___-HOVER:hover'', ''.rp__aa'')]"
    by (simp add: uglified_names_def Object_keys_plain not_array_index is_digit_def
        startsWith_def sample_uglifier_def)
  have tbl: "output_rules (uglified_table ?nr
      [(''.rp__color__--COLONred'', ''.rp__a''),
       (''.rp__color__--COLONblue___-HOVER:hover'', ''.rp__aa'')]) =
      [\<lparr>out_selectors = [[Some ''div'']],
           out_declarations = [\<lparr>property = ''margin'', decl_value = ''0'', decl_position = None\<rparr>]\<rparr>,
       \<lparr>out_selectors = [[Some ''.rp__a'']],
           out_declarations = [\<lparr>property = ''color'', decl_value = ''red'', decl_position = None\<rparr>]\<rparr>,
       \<lparr>out_selectors = [[Some ''.rp__aa:hover'']],
           out_declarations = [\<lparr>property = ''color'', decl_value = ''blue'', decl_position = None\<rparr>]\<rparr>]"
    by (simp add: uglified_table_def AList.restrict_eq List.map_filter_def uglified_rule_def
        pseudo_suffix_def output_rules_def Object_keys_plain not_array_index is_digit_def)
  have cm': "uglified_classMap ?cm
      [(''.rp__color__--COLONred'', ''.rp__a''),
       (''.rp__color__--COLONblue___-HOVER:hover'', ''.rp__aa'')] =
      [(''.a'', [''.rp__a'', ''.rp__aa''])]"
    by (simp add: uglified_classMap_def rename_value_def split0_def)
  have str: "sample_stringify
      [\<lparr>out_selectors = [[Some ''div'']],
           out_declarations = [\<lparr>property = ''margin'', decl_value = ''0'', decl_position = None\<rparr>]\<rparr>,
       \<lparr>out_selectors = [[Some ''.rp__a'']],
           out_declarations = [\<lparr>property = ''color'', decl_value = ''red'', decl_position = None\<rparr>]\<rparr>,
       \<lparr>out_selectors = [[Some ''.rp__aa:hover'']],
           out_declarations = [\<lparr>property = ''color'', decl_value = ''blue'', decl_position = None\<rparr>]\<rparr>]
      = ''div{margin:0;}.rp__a{color:red;}.rp__aa:hover{color:blue;}''"
    by (simp add: sample_stringify_def sample_selector_def property_key_def)
  from uglify_pass_names [where cssParser = "cssParser_stripping sample_parse sample_selectorParse"
      and ?options0.0 = None
      and ?input0.0 = "Some ''.a{color:red}.a:hover{color:blue}div{margin:0}''"
      and E = sample_encoder and toUpperCase = sample_toUpperCase and cssUglifier = sample_uglifier
      and S = sample_stringify and log = "[]",
      OF sample_three_parsed wf plain contract]
  obtain classMap0 newRules where
    loop: "forEach (atomize_rule sample_encoder sample_toUpperCase (options_or_empty None)) ?rules
      ([], []) = Inr (classMap0, newRules)"
    and res: "css (cssParser_stripping sample_parse sample_selectorParse) sample_encoder
       sample_toUpperCase sample_uglifier sample_stringify None
       (Some ''.a{color:red}.a:hover{color:blue}div{margin:0}'') True [] =
         (Inr \<lparr>res_classMap =
                 uglified_classMap (removeIdenticalProperties classMap0)
                   (uglified_names sample_uglifier newRules),
               res_output =
                 sample_stringify (output_rules
                   (uglified_table newRules (uglified_names sample_uglifier newRules)))\<rparr>,
          [] @ [])"
    by (elim exE conjE)
  from loop run have "classMap0 = ?cm" and "newRules = ?nr"
    by simp_all
  with res show ?thesis
    by (simp only: dedup names tbl cm' str append_Nil)
qed

end
